theory Spec2Isabelle
  imports Complex_Main "HOL-Library.Word" "HOL-Library.Multiset"
begin

section \<open>Data model\<close>

text \<open>
  The embedding follows \<^verbatim>\<open>internal/docker/stats.go\<close> and \<^verbatim>\<open>cmd/whale/main.go\<close>.
  Go's \<^verbatim>\<open>uint64\<close> and \<^verbatim>\<open>uint32\<close> are words, so that subtraction and addition wrap
  around as they do in Go. A \<^verbatim>\<open>float64\<close> is represented by a real number: the
  conversion of an unsigned integer and the operations \<^verbatim>\<open>/\<close> and \<^verbatim>\<open>*\<close> are exact here,
  rounding is not represented. A Go \<^verbatim>\<open>string\<close> is a list of bytes.
\<close>

type_synonym uint64 = "64 word"
type_synonym uint32 = "32 word"
type_synonym float64 = real

datatype error = Error string

text \<open>
  The fields of the Docker API type \<^verbatim>\<open>container.Stats\<close> that the program reads.
  \<^verbatim>\<open>Networks\<close> is a Go map; the list holds its entries in the order in which one
  \<^verbatim>\<open>range\<close> loop visits them, an order Go leaves unspecified.
\<close>

record cpu_usage =
  TotalUsage :: uint64
  PercpuUsage :: "uint64 list"

record cpu_stats =
  CPUUsage :: cpu_usage
  SystemUsage :: uint64
  OnlineCPUs :: uint32

record memory_stats =
  Usage :: uint64
  Limit :: uint64

record network_stats =
  RxBytes :: uint64
  TxBytes :: uint64

record blkio_stat_entry =
  Major :: uint64
  Minor :: uint64
  Op :: string
  Value :: uint64

record blkio_stats =
  IoServiceBytesRecursive :: "blkio_stat_entry list"

record pids_stats =
  Current :: uint64

record stats =
  CPUStats :: cpu_stats
  PreCPUStats :: cpu_stats
  MemoryStats :: memory_stats
  Networks :: "(string \<times> network_stats) list"
  BlkioStats :: blkio_stats
  PidsStats :: pids_stats

text \<open>\<^verbatim>\<open>ContainerSnapshot\<close>, with Go's \<^verbatim>\<open>int\<close> taken as the 64-bit signed integer.\<close>

record ContainerSnapshot =
  ID :: string
  Name :: string
  Status :: string
  CPUPercent :: float64
  MemUsage :: uint64
  MemLimit :: uint64
  MemPercent :: float64
  NetRx :: uint64
  NetTx :: uint64
  BlockRead :: uint64
  BlockWrite :: uint64
  PIDs :: int

section \<open>String functions of the Go library\<close>

text \<open>\<^verbatim>\<open>strings.TrimPrefix(s, prefix)\<close>: \<^verbatim>\<open>s\<close> without the leading \<^verbatim>\<open>prefix\<close>, or
  \<^verbatim>\<open>s\<close> itself when it does not start with it.\<close>

fun HasPrefix :: "string \<Rightarrow> string \<Rightarrow> bool" where
  "HasPrefix s [] = True"
| "HasPrefix [] (p # ps) = False"
| "HasPrefix (c # cs) (p # ps) = (c = p \<and> HasPrefix cs ps)"

definition TrimPrefix :: "string \<Rightarrow> string \<Rightarrow> string" where
  "TrimPrefix s prefix = (if HasPrefix s prefix then drop (length prefix) s else s)"

text \<open>
  \<^verbatim>\<open>strings.ToLower\<close>. On a string of ASCII bytes only, Go maps each of \<^verbatim>\<open>A\<close>..\<^verbatim>\<open>Z\<close>
  to its lower-case letter and keeps every other byte. On a string with a byte from
  \<^verbatim>\<open>0x80\<close> on it returns \<^verbatim>\<open>strings.Map(unicode.ToLower, s)\<close>, which depends on Go's
  Unicode tables; that result is the parameter \<open>mapLower\<close>.
\<close>

definition isASCII :: "char \<Rightarrow> bool" where
  "isASCII c = ((of_char c :: nat) < 128)"

definition isUpper :: "char \<Rightarrow> bool" where
  "isUpper c = (65 \<le> (of_char c :: nat) \<and> (of_char c :: nat) \<le> 90)"

definition lowerByte :: "char \<Rightarrow> char" where
  "lowerByte c = (if isUpper c then char_of ((of_char c :: nat) + 32) else c)"

definition ToLower :: "(string \<Rightarrow> string) \<Rightarrow> string \<Rightarrow> string" where
  "ToLower mapLower s = (if list_all isASCII s then map lowerByte s else mapLower s)"

section \<open>The metric normalizer\<close>

definition float64_of_uint64 :: "uint64 \<Rightarrow> float64" where
  "float64_of_uint64 x = real (unat x)"

definition computeCPUPercent :: "stats \<Rightarrow> float64" where
  "computeCPUPercent s =
     (let cpuDelta = float64_of_uint64
            (TotalUsage (CPUUsage (CPUStats s)) - TotalUsage (CPUUsage (PreCPUStats s)));
          systemDelta = float64_of_uint64
            (SystemUsage (CPUStats s) - SystemUsage (PreCPUStats s))
      in if cpuDelta \<le> 0 \<or> systemDelta \<le> 0 then 0
         else let numCPUs =
                (if OnlineCPUs (CPUStats s) > 0 then real (unat (OnlineCPUs (CPUStats s)))
                 else if length (PercpuUsage (CPUUsage (CPUStats s))) > 0
                   then real (length (PercpuUsage (CPUUsage (CPUStats s))))
                 else 1)
              in (cpuDelta / systemDelta) * numCPUs * 100)"

definition computeMemory :: "stats \<Rightarrow> uint64 \<times> uint64 \<times> float64" where
  "computeMemory s =
     (let usage = Usage (MemoryStats s);
          limit = Limit (MemoryStats s)
      in if limit = 0 \<or> usage = 0 then (usage, limit, 0)
         else (usage, limit, (float64_of_uint64 usage / float64_of_uint64 limit) * 100))"

text \<open>The loop of \<^verbatim>\<open>computeNetwork\<close> over the entries of the map, with its two
  accumulators.\<close>

fun sumNetwork :: "(string \<times> network_stats) list \<Rightarrow> uint64 \<times> uint64 \<Rightarrow> uint64 \<times> uint64" where
  "sumNetwork [] (rx, tx) = (rx, tx)"
| "sumNetwork ((name, nw) # rest) (rx, tx) = sumNetwork rest (rx + RxBytes nw, tx + TxBytes nw)"

definition computeNetwork :: "stats \<Rightarrow> uint64 \<times> uint64" where
  "computeNetwork s = sumNetwork (Networks s) (0, 0)"

text \<open>The loop of \<^verbatim>\<open>computeBlockIO\<close>: the \<^verbatim>\<open>switch\<close> on the lower-cased label has
  two cases and no default.\<close>

fun sumBlockIO :: "(string \<Rightarrow> string) \<Rightarrow> blkio_stat_entry list \<Rightarrow> uint64 \<times> uint64 \<Rightarrow> uint64 \<times> uint64" where
  "sumBlockIO mapLower [] (read, write) = (read, write)"
| "sumBlockIO mapLower (e # rest) (read, write) =
     (let op = ToLower mapLower (Op e)
      in if op = ''read'' then sumBlockIO mapLower rest (read + Value e, write)
         else if op = ''write'' then sumBlockIO mapLower rest (read, write + Value e)
         else sumBlockIO mapLower rest (read, write))"

definition computeBlockIO :: "(string \<Rightarrow> string) \<Rightarrow> stats \<Rightarrow> uint64 \<times> uint64" where
  "computeBlockIO mapLower s =
     sumBlockIO mapLower (IoServiceBytesRecursive (BlkioStats s)) (0, 0)"

section \<open>Name and status of a container\<close>

definition deriveName :: "string list \<Rightarrow> string" where
  "deriveName names = (if length names = 0 then '''' else TrimPrefix (names ! 0) ''/'')"

definition deriveStatus :: "string \<Rightarrow> string \<Rightarrow> string" where
  "deriveStatus state status =
     (if status \<noteq> '''' then status else if state \<noteq> '''' then state else '''')"

section \<open>Collecting the snapshots\<close>

text \<open>
  The fields of the Docker API type \<^verbatim>\<open>container.Summary\<close> that the program reads; the
  prefix \<open>c\<close> keeps them apart from the fields of a snapshot.
\<close>

record container_summary =
  cID :: string
  cNames :: "string list"
  cState :: string
  cStatus :: string

text \<open>
  The Docker client, as far as one collection cycle sees it. \<^verbatim>\<open>ContainerList\<close> answers
  for the value of \<^verbatim>\<open>ListOptions.All\<close>. \<^verbatim>\<open>ContainerStats\<close> answers for a container ID
  with an error (transport failure, expired deadline) or with a response, and a response
  body is represented by what \<^verbatim>\<open>json.Decoder.Decode\<close> makes of it: an error or the
  decoded \<^verbatim>\<open>container.Stats\<close>. The record holds the answers of the daemon during one
  cycle, one for each container ID; the deadline of 1.5 seconds that the goroutine puts
  on its call shows as one of the errors.
\<close>

type_synonym response_body = "error + stats"

record client =
  ContainerList :: "bool \<Rightarrow> error + container_summary list"
  ContainerStats :: "string \<Rightarrow> error + response_body"

text \<open>The zero value of \<^verbatim>\<open>ContainerSnapshot\<close>, which \<^verbatim>\<open>make\<close> fills the slice with.\<close>

definition zeroSnapshot :: ContainerSnapshot where
  "zeroSnapshot =
     \<lparr>ID = '''', Name = '''', Status = '''', CPUPercent = 0, MemUsage = 0, MemLimit = 0,
      MemPercent = 0, NetRx = 0, NetTx = 0, BlockRead = 0, BlockWrite = 0, PIDs = 0\<rparr>"

text \<open>The composite literal of the first loop: the fields it does not name are zero.\<close>

definition newSnapshot :: "container_summary \<Rightarrow> ContainerSnapshot" where
  "newSnapshot c =
     zeroSnapshot\<lparr>ID := cID c, Name := deriveName (cNames c),
                  Status := deriveStatus (cState c) (cStatus c)\<rparr>"

text \<open>The first loop of \<^verbatim>\<open>CollectSnapshots\<close>, at index \<open>i\<close>, with the slice of
  snapshots and \<^verbatim>\<open>runningIdx\<close> as accumulators. The slice has the length of the
  listing, so the index is in range at every assignment (\<open>listLoop_enumerate\<close> below),
  and so are the indices that the goroutines use (\<open>slotsInv\<close>).\<close>

fun listLoop :: "container_summary list \<Rightarrow> nat \<Rightarrow> ContainerSnapshot list \<times> nat list
                 \<Rightarrow> ContainerSnapshot list \<times> nat list" where
  "listLoop [] i (snaps, runningIdx) = (snaps, runningIdx)"
| "listLoop (c # cs) i (snaps, runningIdx) =
     listLoop cs (i + 1)
       (snaps[i := newSnapshot c],
        if cState c = ''running'' then runningIdx @ [i] else runningIdx)"

text \<open>
  \<^verbatim>\<open>populateStats\<close> returns its error and leaves the snapshot behind the pointer as the
  second component. Both error returns come before the first assignment to a field.
\<close>

definition populateStats :: "(string \<Rightarrow> string) \<Rightarrow> client \<Rightarrow> ContainerSnapshot \<Rightarrow> string
                             \<Rightarrow> error option \<times> ContainerSnapshot" where
  "populateStats mapLower cli snap containerID =
     (case ContainerStats cli containerID of
        Inl err \<Rightarrow> (Some err, snap)
      | Inr body \<Rightarrow>
          (case body of
             Inl err \<Rightarrow> (Some err, snap)
           | Inr sj \<Rightarrow>
               (let cpuPercent = computeCPUPercent sj;
                    (memUsage, memLimit, memPercent) = computeMemory sj;
                    (netRx, netTx) = computeNetwork sj;
                    (blkRead, blkWrite) = computeBlockIO mapLower sj;
                    pids = (if Current (PidsStats sj) \<noteq> 0 then sint (Current (PidsStats sj)) else 0)
                in (None,
                    snap\<lparr>CPUPercent := cpuPercent, MemUsage := memUsage, MemLimit := memLimit,
                         MemPercent := memPercent, NetRx := netRx, NetTx := netTx,
                         BlockRead := blkRead, BlockWrite := blkWrite, PIDs := pids\<rparr>))))"

text \<open>The body of the goroutine of a slot, on the value of \<^verbatim>\<open>snapshots[i]\<close>: the only
  element of the slice it reads and writes.\<close>

definition worker :: "(string \<Rightarrow> string) \<Rightarrow> client \<Rightarrow> ContainerSnapshot \<Rightarrow> ContainerSnapshot" where
  "worker mapLower cli slot =
     (case populateStats mapLower cli slot (ID slot) of
        (Some err, snap) \<Rightarrow> snap\<lparr>Status := ''ERROR''\<rparr>
      | (None, snap) \<Rightarrow> snap)"

text \<open>
  The second loop starts one goroutine for each index of \<^verbatim>\<open>runningIdx\<close>, behind the
  buffered channel \<^verbatim>\<open>sem\<close>. Its executions are the sequences of these events:
  \<^item> \<open>Submit\<close>: the loop sends a token to \<^verbatim>\<open>sem\<close> (which blocks while the channel is
    full) and starts the goroutine of the next index;
  \<^item> \<open>Begin i\<close>: the goroutine of slot \<open>i\<close> calls \<^verbatim>\<open>populateStats\<close>, which calls
    \<^verbatim>\<open>ContainerStats\<close>;
  \<^item> \<open>End i\<close>: that call returns and the goroutine has written its slot;
  \<^item> \<open>Release i\<close>: the deferred functions of the goroutine take a token from \<^verbatim>\<open>sem\<close>
    and call \<^verbatim>\<open>wg.Done\<close>.
  \<open>calls\<close> lists the container IDs passed to \<^verbatim>\<open>ContainerStats\<close>, in the order of the
  calls.
\<close>

datatype event = Submit | Begin nat | End nat | Release nat

record pool =
  snapshots :: "ContainerSnapshot list"
  pending :: "nat list"
  sem :: nat
  spawned :: "nat list"
  fetching :: "nat list"
  returned :: "nat list"
  calls :: "string list"

fun poolStep :: "(string \<Rightarrow> string) \<Rightarrow> client \<Rightarrow> nat \<Rightarrow> pool \<Rightarrow> event \<Rightarrow> pool option" where
  "poolStep mapLower cli cap p Submit =
     (case pending p of
        [] \<Rightarrow> None
      | i # rest \<Rightarrow>
          if sem p < cap
          then Some (p\<lparr>pending := rest, sem := sem p + 1, spawned := spawned p @ [i]\<rparr>)
          else None)"
| "poolStep mapLower cli cap p (Begin i) =
     (if i \<in> set (spawned p)
      then Some (p\<lparr>spawned := remove1 i (spawned p), fetching := fetching p @ [i],
                   calls := calls p @ [ID (snapshots p ! i)]\<rparr>)
      else None)"
| "poolStep mapLower cli cap p (End i) =
     (if i \<in> set (fetching p)
      then Some (p\<lparr>snapshots := (snapshots p)[i := worker mapLower cli (snapshots p ! i)],
                   fetching := remove1 i (fetching p), returned := returned p @ [i]\<rparr>)
      else None)"
| "poolStep mapLower cli cap p (Release i) =
     (if i \<in> set (returned p)
      then Some (p\<lparr>sem := sem p - 1, returned := remove1 i (returned p)\<rparr>)
      else None)"

fun runPool :: "(string \<Rightarrow> string) \<Rightarrow> client \<Rightarrow> nat \<Rightarrow> pool \<Rightarrow> event list \<Rightarrow> pool option" where
  "runPool mapLower cli cap p [] = Some p"
| "runPool mapLower cli cap p (e # es) =
     (case poolStep mapLower cli cap p e of
        None \<Rightarrow> None
      | Some p' \<Rightarrow> runPool mapLower cli cap p' es)"

text \<open>\<^verbatim>\<open>wg.Wait\<close> returns once the loop has submitted every index and every goroutine
  has called \<^verbatim>\<open>wg.Done\<close>.\<close>

definition joined :: "pool \<Rightarrow> bool" where
  "joined p = (pending p = [] \<and> spawned p = [] \<and> fetching p = [] \<and> returned p = [])"

definition concurrency :: "nat list \<Rightarrow> nat" where
  "concurrency runningIdx = (if length runningIdx < 16 then length runningIdx else 16)"

text \<open>The state after the first loop, with an empty channel and no goroutine.\<close>

definition startPool :: "container_summary list \<Rightarrow> pool" where
  "startPool containers =
     (case listLoop containers 0 (replicate (length containers) zeroSnapshot, []) of
        (snaps, runningIdx) \<Rightarrow>
          \<lparr>snapshots = snaps, pending = runningIdx, sem = 0, spawned = [], fetching = [],
           returned = [], calls = []\<rparr>)"

text \<open>
  \<^verbatim>\<open>CollectSnapshots\<close> under the schedule \<open>evs\<close> of its goroutines: the value returned,
  and the calls of \<^verbatim>\<open>ContainerStats\<close> it has made. The result is \<open>None\<close> when \<open>evs\<close> is
  not an execution that ends with \<^verbatim>\<open>wg.Wait\<close> returning. The schedule plays no part
  when the listing fails or no container is running.
\<close>

definition CollectSnapshots :: "(string \<Rightarrow> string) \<Rightarrow> client \<Rightarrow> bool \<Rightarrow> event list
                                \<Rightarrow> ((error + ContainerSnapshot list) \<times> string list) option" where
  "CollectSnapshots mapLower cli includeAll evs =
     (case ContainerList cli includeAll of
        Inl err \<Rightarrow> Some (Inl err, [])
      | Inr containers \<Rightarrow>
          (let p = startPool containers
           in if length (pending p) = 0 then Some (Inr (snapshots p), [])
              else (case runPool mapLower cli (concurrency (pending p)) p evs of
                      None \<Rightarrow> None
                    | Some p' \<Rightarrow> if joined p' then Some (Inr (snapshots p'), calls p') else None)))"

text \<open>The schedule that runs the goroutines one after the other, in the order of
  submission.\<close>

definition oneByOne :: "nat list \<Rightarrow> event list" where
  "oneByOne runningIdx = concat (map (\<lambda>i. [Submit, Begin i, End i, Release i]) runningIdx)"

section \<open>The watch loop\<close>

text \<open>
  \<^verbatim>\<open>watchContainers\<close> alternates between a collection cycle and a \<^verbatim>\<open>select\<close> over the
  ticker and the parent context. The events of an execution:
  \<^item> \<open>Tick\<close>: the ticker fires; the tick stays ready on \<^verbatim>\<open>ticker.C\<close> until the loop
    receives it, and a tick that fires meanwhile is dropped;
  \<^item> \<open>Cancel\<close>: the parent context is cancelled, which closes \<^verbatim>\<open>parent.Done()\<close>;
  \<^item> \<open>Collected r\<close>: the call of \<^verbatim>\<open>CollectSnapshots\<close> in flight returns \<open>r\<close>;
  \<^item> \<open>SelectTick\<close>: the \<^verbatim>\<open>select\<close> receives from the ticker and the loop continues;
  \<^item> \<open>SelectDone\<close>: the \<^verbatim>\<open>select\<close> receives from \<^verbatim>\<open>parent.Done()\<close> and the function
    returns \<^verbatim>\<open>nil\<close>.
  When both channels are ready, Go's \<^verbatim>\<open>select\<close> takes either case. \<open>cycles\<close> counts the
  calls of \<^verbatim>\<open>CollectSnapshots\<close> started so far.
\<close>

datatype watch_event =
  Tick | Cancel | Collected "error + ContainerSnapshot list" | SelectTick | SelectDone

datatype watch_phase = Collecting | Waiting | Returned "error option"

record watch_state =
  phase :: watch_phase
  tickReady :: bool
  cancelled :: bool
  cycles :: nat

fun watchStep :: "watch_state \<Rightarrow> watch_event \<Rightarrow> watch_state option" where
  "watchStep s Tick = Some (s\<lparr>tickReady := True\<rparr>)"
| "watchStep s Cancel = Some (s\<lparr>cancelled := True\<rparr>)"
| "watchStep s (Collected r) =
     (if phase s = Collecting
      then (case r of
              Inl err \<Rightarrow> Some (s\<lparr>phase := Returned (Some err)\<rparr>)
            | Inr snaps \<Rightarrow> Some (s\<lparr>phase := Waiting\<rparr>))
      else None)"
| "watchStep s SelectTick =
     (if phase s = Waiting \<and> tickReady s
      then Some (s\<lparr>phase := Collecting, tickReady := False, cycles := cycles s + 1\<rparr>)
      else None)"
| "watchStep s SelectDone =
     (if phase s = Waiting \<and> cancelled s then Some (s\<lparr>phase := Returned None\<rparr>) else None)"

fun watchRun :: "watch_state \<Rightarrow> watch_event list \<Rightarrow> watch_state option" where
  "watchRun s [] = Some s"
| "watchRun s (e # es) =
     (case watchStep s e of None \<Rightarrow> None | Some s' \<Rightarrow> watchRun s' es)"

text \<open>On entry the ticker is new and the first cycle starts at once.\<close>

definition watchStart :: watch_state where
  "watchStart = \<lparr>phase = Collecting, tickReady = False, cancelled = False, cycles = 1\<rparr>"

text \<open>\<^verbatim>\<open>watchContainers\<close> under the events \<open>evs\<close>: the state it has reached, or \<open>None\<close>
  when \<open>evs\<close> is not an execution.\<close>

definition watchContainers :: "watch_event list \<Rightarrow> watch_state option" where
  "watchContainers evs = watchRun watchStart evs"

text \<open>The cancellation comes before any tick: \<open>Cancel\<close> occurs, and no \<open>Tick\<close> before
  it.\<close>

fun cancelBeforeTick :: "watch_event list \<Rightarrow> bool" where
  "cancelBeforeTick [] = False"
| "cancelBeforeTick (e # es) =
     (if e = Cancel then True else if e = Tick then False else cancelBeforeTick es)"

section \<open>Case-insensitive labels, in the words of the specification\<close>

text \<open>
  The specification matches an operation label against \<^verbatim>\<open>read\<close> and \<^verbatim>\<open>write\<close> without
  regard to case. For labels of ASCII bytes this is \<open>matchesIgnoringCase\<close>: the same
  length, and position by position the same byte or the two cases of one letter. It is
  compared below with what \<^verbatim>\<open>computeBlockIO\<close> does through \<^verbatim>\<open>strings.ToLower\<close>.
\<close>

definition sameLetter :: "char \<Rightarrow> char \<Rightarrow> bool" where
  "sameLetter a b = (a = b \<or> (isUpper a \<and> lowerByte a = b) \<or> (isUpper b \<and> lowerByte b = a))"

definition matchesIgnoringCase :: "string \<Rightarrow> string \<Rightarrow> bool" where
  "matchesIgnoringCase a b = list_all2 sameLetter a b"

section \<open>Sample inputs\<close>

definition noCPU :: cpu_stats where
  "noCPU = \<lparr>CPUUsage = \<lparr>TotalUsage = 0, PercpuUsage = []\<rparr>, SystemUsage = 0, OnlineCPUs = 0\<rparr>"

definition emptyStats :: stats where
  "emptyStats =
     \<lparr>CPUStats = noCPU, PreCPUStats = noCPU, MemoryStats = \<lparr>Usage = 0, Limit = 0\<rparr>,
      Networks = [], BlkioStats = \<lparr>IoServiceBytesRecursive = []\<rparr>,
      PidsStats = \<lparr>Current = 0\<rparr>\<rparr>"

text \<open>A sample whose container CPU counter is below the preceding reading (100 after
  150) while the host counter went from 500 to 1000, on 4 online CPUs.\<close>

definition skewedSample :: stats where
  "skewedSample =
     emptyStats
       \<lparr>CPUStats := \<lparr>CPUUsage = \<lparr>TotalUsage = 100, PercpuUsage = []\<rparr>,
                     SystemUsage = 1000, OnlineCPUs = 4\<rparr>,
        PreCPUStats := \<lparr>CPUUsage = \<lparr>TotalUsage = 150, PercpuUsage = []\<rparr>,
                        SystemUsage = 500, OnlineCPUs = 4\<rparr>\<rparr>"

text \<open>The scenarios of the specification: CPU time 50 of 500 on 4 CPUs, 100 MiB of
  2 GiB, and three block-I/O entries.\<close>

definition cpuSample :: stats where
  "cpuSample =
     emptyStats
       \<lparr>CPUStats := \<lparr>CPUUsage = \<lparr>TotalUsage = 150, PercpuUsage = []\<rparr>,
                     SystemUsage = 1000, OnlineCPUs = 4\<rparr>,
        PreCPUStats := \<lparr>CPUUsage = \<lparr>TotalUsage = 100, PercpuUsage = []\<rparr>,
                        SystemUsage = 500, OnlineCPUs = 4\<rparr>\<rparr>"

definition memorySample :: stats where
  "memorySample = emptyStats\<lparr>MemoryStats := \<lparr>Usage = 104857600, Limit = 2147483648\<rparr>\<rparr>"

definition blkioEntry :: "string \<Rightarrow> uint64 \<Rightarrow> blkio_stat_entry" where
  "blkioEntry op v = \<lparr>Major = 8, Minor = 0, Op = op, Value = v\<rparr>"

definition blockSample :: stats where
  "blockSample =
     emptyStats
       \<lparr>Networks := [(''eth0'', \<lparr>RxBytes = 10, TxBytes = 20\<rparr>),
                     (''eth1'', \<lparr>RxBytes = 3, TxBytes = 4\<rparr>)],
        BlkioStats := \<lparr>IoServiceBytesRecursive =
          [blkioEntry ''Read'' 1024, blkioEntry ''write'' 2048, blkioEntry ''Async'' 99]\<rparr>\<rparr>"

definition blockSamplePermuted :: stats where
  "blockSamplePermuted =
     emptyStats
       \<lparr>Networks := [(''eth1'', \<lparr>RxBytes = 3, TxBytes = 4\<rparr>),
                     (''eth0'', \<lparr>RxBytes = 10, TxBytes = 20\<rparr>)],
        BlkioStats := \<lparr>IoServiceBytesRecursive =
          [blkioEntry ''Async'' 99, blkioEntry ''write'' 2048, blkioEntry ''Read'' 1024]\<rparr>\<rparr>"

definition fullSample :: stats where
  "fullSample =
     \<lparr>CPUStats = \<lparr>CPUUsage = \<lparr>TotalUsage = 150, PercpuUsage = []\<rparr>,
                   SystemUsage = 1000, OnlineCPUs = 4\<rparr>,
      PreCPUStats = \<lparr>CPUUsage = \<lparr>TotalUsage = 100, PercpuUsage = []\<rparr>,
                      SystemUsage = 500, OnlineCPUs = 4\<rparr>,
      MemoryStats = \<lparr>Usage = 104857600, Limit = 2147483648\<rparr>,
      Networks = [(''eth0'', \<lparr>RxBytes = 10, TxBytes = 20\<rparr>),
                  (''eth1'', \<lparr>RxBytes = 3, TxBytes = 4\<rparr>)],
      BlkioStats = \<lparr>IoServiceBytesRecursive =
          [blkioEntry ''Read'' 1024, blkioEntry ''write'' 2048, blkioEntry ''Async'' 99]\<rparr>,
      PidsStats = \<lparr>Current = 7\<rparr>\<rparr>"

text \<open>
  A listing of five containers, four of them running, and a client that answers the
  first with \<open>fullSample\<close>, lets the third run into its deadline, answers the fourth
  with a sample of zeros and the fifth with a body that does not decode.
\<close>

definition sampleContainers :: "container_summary list" where
  "sampleContainers =
     [\<lparr>cID = ''aaa'', cNames = [''/web''], cState = ''running'', cStatus = ''Up 2 minutes''\<rparr>,
      \<lparr>cID = ''bbb'', cNames = [''/db''], cState = ''exited'',
       cStatus = ''Exited (0) 3 hours ago''\<rparr>,
      \<lparr>cID = ''ccc'', cNames = [''/cache''], cState = ''running'', cStatus = ''Up 5 seconds''\<rparr>,
      \<lparr>cID = ''ddd'', cNames = [''/job'', ''/batch''], cState = ''running'', cStatus = ''''\<rparr>,
      \<lparr>cID = ''eee'', cNames = [], cState = ''running'', cStatus = ''Up 1 hour''\<rparr>]"

definition sampleClient :: client where
  "sampleClient =
     \<lparr>ContainerList = (\<lambda>all. Inr sampleContainers),
      ContainerStats = (\<lambda>containerID.
        if containerID = ''aaa'' then Inr (Inr fullSample)
        else if containerID = ''ccc'' then Inl (Error ''context deadline exceeded'')
        else if containerID = ''ddd'' then Inr (Inr emptyStats)
        else Inr (Inl (Error ''unexpected EOF'')))\<rparr>"

definition sampleSchedule :: "event list" where
  "sampleSchedule =
     [Submit, Submit, Begin 2, Begin 0, Submit, End 2, Submit, Begin 4, Release 2, Begin 3,
      End 0, End 4, Release 0, End 3, Release 4, Release 3]"

definition sampleSnapshots :: "ContainerSnapshot list" where
  "sampleSnapshots =
     [\<lparr>ID = ''aaa'', Name = ''web'', Status = ''Up 2 minutes'', CPUPercent = 40,
       MemUsage = 104857600, MemLimit = 2147483648, MemPercent = 4.8828125, NetRx = 13,
       NetTx = 24, BlockRead = 1024, BlockWrite = 2048, PIDs = 7\<rparr>,
      \<lparr>ID = ''bbb'', Name = ''db'', Status = ''Exited (0) 3 hours ago'', CPUPercent = 0,
       MemUsage = 0, MemLimit = 0, MemPercent = 0, NetRx = 0, NetTx = 0, BlockRead = 0,
       BlockWrite = 0, PIDs = 0\<rparr>,
      \<lparr>ID = ''ccc'', Name = ''cache'', Status = ''ERROR'', CPUPercent = 0,
       MemUsage = 0, MemLimit = 0, MemPercent = 0, NetRx = 0, NetTx = 0, BlockRead = 0,
       BlockWrite = 0, PIDs = 0\<rparr>,
      \<lparr>ID = ''ddd'', Name = ''job'', Status = ''running'', CPUPercent = 0,
       MemUsage = 0, MemLimit = 0, MemPercent = 0, NetRx = 0, NetTx = 0, BlockRead = 0,
       BlockWrite = 0, PIDs = 0\<rparr>,
      \<lparr>ID = ''eee'', Name = '''', Status = ''ERROR'', CPUPercent = 0,
       MemUsage = 0, MemLimit = 0, MemPercent = 0, NetRx = 0, NetTx = 0, BlockRead = 0,
       BlockWrite = 0, PIDs = 0\<rparr>]"

text \<open>A client whose listing fails, and a listing of 17 running containers whose
  statistics all run into the deadline.\<close>

definition failingClient :: client where
  "failingClient =
     \<lparr>ContainerList = (\<lambda>all. Inl (Error ''daemon unreachable'')),
      ContainerStats = (\<lambda>containerID. Inl (Error ''daemon unreachable''))\<rparr>"

definition manyContainers :: "container_summary list" where
  "manyContainers =
     map (\<lambda>n. \<lparr>cID = replicate (Suc n) (CHR ''c''), cNames = [], cState = ''running'',
                cStatus = ''Up''\<rparr>) [0..<17]"

definition busyClient :: client where
  "busyClient =
     \<lparr>ContainerList = (\<lambda>all. Inr manyContainers),
      ContainerStats = (\<lambda>containerID. Inl (Error ''context deadline exceeded''))\<rparr>"

section \<open>Invariants of the executions\<close>

text \<open>
  The predicates that every state of an execution of the goroutines satisfies; they
  carry the proofs below.

  \<open>gateInv\<close>: the tokens in \<^verbatim>\<open>sem\<close> are those of the goroutines that have started and
  not yet released theirs, and they are at most the capacity of the channel.
\<close>

definition gateInv :: "nat \<Rightarrow> pool \<Rightarrow> bool" where
  "gateInv cap p =
     (sem p = length (spawned p) + length (fetching p) + length (returned p) \<and> sem p \<le> cap)"

text \<open>\<open>remaining\<close>: the number of events an execution still has before \<^verbatim>\<open>wg.Wait\<close>
  returns: four for an index not yet submitted, three, two and one for a goroutine that
  has started, is fetching, or has returned.\<close>

definition remaining :: "pool \<Rightarrow> nat" where
  "remaining p =
     4 * length (pending p) + 3 * length (spawned p) + 2 * length (fetching p)
       + length (returned p)"

text \<open>The snapshot a container ends a cycle with: the literal of the first loop, and
  for a running container what its goroutine makes of it.\<close>

definition finalSlot :: "(string \<Rightarrow> string) \<Rightarrow> client \<Rightarrow> container_summary \<Rightarrow> ContainerSnapshot" where
  "finalSlot m cli c =
     (if cState c = ''running'' then worker m cli (newSnapshot c) else newSnapshot c)"

text \<open>\<open>slotsInv\<close>: the indices known to the loop and the goroutines are distinct indices
  of running containers, and a slot holds the literal of the first loop until its
  goroutine has returned from \<^verbatim>\<open>populateStats\<close>, and its final value from then on.\<close>

definition slotsInv :: "(string \<Rightarrow> string) \<Rightarrow> client \<Rightarrow> container_summary list \<Rightarrow> pool \<Rightarrow> bool" where
  "slotsInv m cli cs p =
     (length (snapshots p) = length cs
      \<and> distinct (pending p @ spawned p @ fetching p @ returned p)
      \<and> (\<forall>j \<in> set (pending p @ spawned p @ fetching p @ returned p).
            j < length cs \<and> cState (cs ! j) = ''running'')
      \<and> (\<forall>j < length cs.
            snapshots p ! j =
              (if j \<in> set (pending p @ spawned p @ fetching p) then newSnapshot (cs ! j)
               else finalSlot m cli (cs ! j))))"

text \<open>\<open>callsInv\<close>: the calls made so far, with those still to come, are one call for
  each running container.\<close>

definition callsInv :: "container_summary list \<Rightarrow> pool \<Rightarrow> bool" where
  "callsInv cs p =
     (mset (calls p) + image_mset (\<lambda>j. cID (cs ! j)) (mset (pending p @ spawned p))
        = image_mset (\<lambda>j. cID (cs ! j)) (mset (pending (startPool cs))))"

section \<open>Properties of the metric normalizer\<close>

subsection \<open>CPU percentage\<close>

lemma float64_of_uint64_le_0: "float64_of_uint64 x \<le> 0 \<longleftrightarrow> x = 0"
  unfolding float64_of_uint64_def by (simp only: of_nat_le_0_iff unat_eq_zero)

lemma numCPUs_positive:
  "0 < (if OnlineCPUs c > 0 then real (unat (OnlineCPUs c))
        else if length (PercpuUsage (CPUUsage c)) > 0
          then real (length (PercpuUsage (CPUUsage c)))
        else 1)"
proof -
  have "0 < real (unat (OnlineCPUs c)) \<longleftrightarrow> OnlineCPUs c \<noteq> 0"
    by (simp only: of_nat_0_less_iff unat_gt_0)
  then show ?thesis
    by (auto simp only: word_greater_zero_iff of_nat_0_less_iff split: if_splits)
qed

text \<open>
  The guard of \<^verbatim>\<open>computeCPUPercent\<close> compares the converted differences with 0, and
  the differences are taken in \<^verbatim>\<open>uint64\<close>: the result is 0 exactly when one of the two
  counters is equal to its preceding reading.
\<close>

lemma computeCPUPercent_eq_0_iff:
  "computeCPUPercent s = 0 \<longleftrightarrow>
     TotalUsage (CPUUsage (CPUStats s)) = TotalUsage (CPUUsage (PreCPUStats s))
     \<or> SystemUsage (CPUStats s) = SystemUsage (PreCPUStats s)"
proof -
  let ?cd = "float64_of_uint64
    (TotalUsage (CPUUsage (CPUStats s)) - TotalUsage (CPUUsage (PreCPUStats s)))"
  let ?sd = "float64_of_uint64 (SystemUsage (CPUStats s) - SystemUsage (PreCPUStats s))"
  let ?n = "(if OnlineCPUs (CPUStats s) > 0 then real (unat (OnlineCPUs (CPUStats s)))
             else if length (PercpuUsage (CPUUsage (CPUStats s))) > 0
               then real (length (PercpuUsage (CPUUsage (CPUStats s))))
             else 1)"
  have eq: "computeCPUPercent s = (if ?cd \<le> 0 \<or> ?sd \<le> 0 then 0 else (?cd / ?sd) * ?n * 100)"
    unfolding computeCPUPercent_def Let_def ..
  have n: "0 < ?n" by (rule numCPUs_positive)
  show ?thesis
  proof (cases "?cd \<le> 0 \<or> ?sd \<le> 0")
    case True
    then show ?thesis using eq by (auto simp: float64_of_uint64_le_0)
  next
    case False
    then have "0 < ?cd" "0 < ?sd" by auto
    then have "0 < (?cd / ?sd) * ?n * 100" using n by simp
    then show ?thesis using eq False by (auto simp: float64_of_uint64_le_0)
  qed
qed

text \<open>When neither counter went backwards, the result is the formula of the
  specification on the true differences.\<close>

lemma computeCPUPercent_monotone_counters:
  assumes "TotalUsage (CPUUsage (PreCPUStats s)) \<le> TotalUsage (CPUUsage (CPUStats s))"
    and "SystemUsage (PreCPUStats s) \<le> SystemUsage (CPUStats s)"
  shows "computeCPUPercent s =
     (let cpuDelta = real (unat (TotalUsage (CPUUsage (CPUStats s))))
                       - real (unat (TotalUsage (CPUUsage (PreCPUStats s))));
          systemDelta = real (unat (SystemUsage (CPUStats s)))
                          - real (unat (SystemUsage (PreCPUStats s)));
          onlineCPUCount =
            (if OnlineCPUs (CPUStats s) > 0 then real (unat (OnlineCPUs (CPUStats s)))
             else if length (PercpuUsage (CPUUsage (CPUStats s))) > 0
               then real (length (PercpuUsage (CPUUsage (CPUStats s))))
             else 1)
      in if cpuDelta \<le> 0 \<or> systemDelta \<le> 0 then 0
         else (cpuDelta / systemDelta) * onlineCPUCount * 100)"
proof -
  have sub: "real (unat (a - b)) = real (unat a) - real (unat b)" if "b \<le> a" for a b :: uint64
    using that by (simp add: unat_sub word_le_nat_alt of_nat_diff)
  show ?thesis
    unfolding computeCPUPercent_def float64_of_uint64_def Let_def
    by (simp only: sub [OF assms(1)] sub [OF assms(2)])
qed

lemma computeCPUPercent_cpuSample: "computeCPUPercent cpuSample = 40"
  by (simp add: cpuSample_def emptyStats_def computeCPUPercent_def Let_def float64_of_uint64_def)

text \<open>
  C1. The claim: if the container CPU-time delta (current minus previous) or the host
  CPU-time delta is not positive, cpuPercent is 0. The code subtracts in \<^verbatim>\<open>uint64\<close>
  before it converts to \<^verbatim>\<open>float64\<close>, so a negative delta wraps around to a large
  positive number and passes the guard \<^verbatim>\<open>cpuDelta <= 0\<close>. On \<open>skewedSample\<close> the
  container counter went from 150 to 100, a delta of -50: the difference the code
  tests is \<open>2 ^ 64 - 50\<close> and the percentage it returns is positive, not 0.
\<close>

theorem computeCPUPercent_skewedSample:
  "unat (TotalUsage (CPUUsage (CPUStats skewedSample)))
     < unat (TotalUsage (CPUUsage (PreCPUStats skewedSample)))
   \<and> TotalUsage (CPUUsage (CPUStats skewedSample))
       - TotalUsage (CPUUsage (PreCPUStats skewedSample)) = 18446744073709551566
   \<and> 0 < computeCPUPercent skewedSample"
  by (simp add: skewedSample_def emptyStats_def computeCPUPercent_def Let_def
      float64_of_uint64_def)

subsection \<open>Memory\<close>

text \<open>
  C4. Memory usage and limit pass through unchanged; memPercent is 0 whenever the limit
  is 0 or the usage is 0, whatever the other value; otherwise it is
  usage / limit * 100.
\<close>

theorem computeMemory_percent:
  "fst (computeMemory s) = Usage (MemoryStats s)
   \<and> fst (snd (computeMemory s)) = Limit (MemoryStats s)
   \<and> (Limit (MemoryStats s) = 0 \<or> Usage (MemoryStats s) = 0
        \<longrightarrow> snd (snd (computeMemory s)) = 0)
   \<and> (Limit (MemoryStats s) \<noteq> 0 \<and> Usage (MemoryStats s) \<noteq> 0
        \<longrightarrow> snd (snd (computeMemory s))
            = real (unat (Usage (MemoryStats s))) / real (unat (Limit (MemoryStats s))) * 100)"
  by (simp add: computeMemory_def Let_def float64_of_uint64_def)

theorem computeMemory_percent_witness:
  "computeMemory memorySample = (104857600, 2147483648, 4.8828125)
   \<and> computeMemory emptyStats = (0, 0, 0)
   \<and> computeMemory (emptyStats\<lparr>MemoryStats := \<lparr>Usage = 7, Limit = 0\<rparr>\<rparr>) = (7, 0, 0)"
  using computeMemory_percent [of memorySample] computeMemory_percent [of emptyStats]
    computeMemory_percent [of "emptyStats\<lparr>MemoryStats := \<lparr>Usage = 7, Limit = 0\<rparr>\<rparr>"]
  by (simp add: memorySample_def emptyStats_def prod_eq_iff)

subsection \<open>Network and block I/O\<close>

lemma sumNetwork_sum_list:
  "sumNetwork xs (rx, tx)
     = (rx + sum_list (map (\<lambda>x. RxBytes (snd x)) xs),
        tx + sum_list (map (\<lambda>x. TxBytes (snd x)) xs))"
  by (induction xs arbitrary: rx tx) (auto simp: add.assoc)

lemma sumBlockIO_sum_list:
  "sumBlockIO m es (r, w)
     = (r + sum_list (map Value (filter (\<lambda>e. ToLower m (Op e) = ''read'') es)),
        w + sum_list (map Value (filter (\<lambda>e. ToLower m (Op e) = ''write'') es)))"
  by (induction es arbitrary: r w) (auto simp: add.assoc Let_def)

lemma sum_list_mset_cong:
  fixes f :: "'a \<Rightarrow> uint64"
  shows "mset xs = mset ys \<Longrightarrow> sum_list (map f xs) = sum_list (map f ys)"
  by (metis mset_map sum_mset_sum_list)

lemma sum_list_filter_mset_cong:
  fixes f :: "'a \<Rightarrow> uint64"
  shows "mset xs = mset ys \<Longrightarrow> sum_list (map f (filter P xs)) = sum_list (map f (filter P ys))"
  by (metis mset_filter sum_list_mset_cong)

lemma lowerByte_eq_iff: "\<not> isUpper b \<Longrightarrow> lowerByte a = b \<longleftrightarrow> sameLetter a b"
  by (auto simp: sameLetter_def lowerByte_def)

lemma map_lowerByte_eq_iff:
  "list_all (\<lambda>b. \<not> isUpper b) t \<Longrightarrow> map lowerByte a = t \<longleftrightarrow> matchesIgnoringCase a t"
  unfolding matchesIgnoringCase_def
proof (induction a arbitrary: t)
  case Nil
  then show ?case by auto
next
  case (Cons x a)
  then show ?case by (cases t) (auto simp: lowerByte_eq_iff)
qed

lemma ToLower_eq_iff:
  "list_all isASCII op \<Longrightarrow> list_all (\<lambda>b. \<not> isUpper b) t
     \<Longrightarrow> ToLower m op = t \<longleftrightarrow> matchesIgnoringCase op t"
  by (simp add: ToLower_def map_lowerByte_eq_iff)

lemma lower_case_labels:
  "list_all (\<lambda>b. \<not> isUpper b) ''read''" "list_all (\<lambda>b. \<not> isUpper b) ''write''"
  by (simp_all add: isUpper_def)

text \<open>
  C5. Block-I/O entries are partitioned by their operation label: the values of the
  entries whose label is \<^verbatim>\<open>read\<close> up to case are summed into blockReadBytes, those whose
  label is \<^verbatim>\<open>write\<close> up to case into blockWriteBytes, and an entry with any other label
  adds to neither sum. The first conjunct states it for every label through
  \<^verbatim>\<open>strings.ToLower\<close>, the second for ASCII labels in the words of the specification.
  The witness is the scenario of the specification: Read 1024, write 2048, Async 99
  give 1024 and 2048.
\<close>

theorem computeBlockIO_partition:
  "computeBlockIO mapLower s =
     (sum_list (map Value (filter (\<lambda>e. ToLower mapLower (Op e) = ''read'')
        (IoServiceBytesRecursive (BlkioStats s)))),
      sum_list (map Value (filter (\<lambda>e. ToLower mapLower (Op e) = ''write'')
        (IoServiceBytesRecursive (BlkioStats s)))))
   \<and> (list_all (\<lambda>e. list_all isASCII (Op e)) (IoServiceBytesRecursive (BlkioStats s)) \<longrightarrow>
        computeBlockIO mapLower s =
          (sum_list (map Value (filter (\<lambda>e. matchesIgnoringCase (Op e) ''read'')
             (IoServiceBytesRecursive (BlkioStats s)))),
           sum_list (map Value (filter (\<lambda>e. matchesIgnoringCase (Op e) ''write'')
             (IoServiceBytesRecursive (BlkioStats s))))))"
proof -
  let ?es = "IoServiceBytesRecursive (BlkioStats s)"
  have code: "computeBlockIO mapLower s =
     (sum_list (map Value (filter (\<lambda>e. ToLower mapLower (Op e) = ''read'') ?es)),
      sum_list (map Value (filter (\<lambda>e. ToLower mapLower (Op e) = ''write'') ?es)))"
    by (simp add: computeBlockIO_def sumBlockIO_sum_list)
  have "filter (\<lambda>e. ToLower mapLower (Op e) = t) ?es
          = filter (\<lambda>e. matchesIgnoringCase (Op e) t) ?es"
    if "list_all (\<lambda>e. list_all isASCII (Op e)) ?es" and "list_all (\<lambda>b. \<not> isUpper b) t" for t
    using that by (intro filter_cong refl) (simp add: list_all_iff ToLower_eq_iff)
  then show ?thesis
    using code lower_case_labels by simp
qed

theorem computeBlockIO_partition_witness:
  "list_all (\<lambda>e. list_all isASCII (Op e)) (IoServiceBytesRecursive (BlkioStats blockSample))
   \<and> computeBlockIO id blockSample = (1024, 2048)"
proof -
  have ascii:
    "list_all (\<lambda>e. list_all isASCII (Op e)) (IoServiceBytesRecursive (BlkioStats blockSample))"
    by (simp add: blockSample_def emptyStats_def blkioEntry_def isASCII_def)
  have m: "matchesIgnoringCase ''Read'' ''read''" "\<not> matchesIgnoringCase ''write'' ''read''"
    "\<not> matchesIgnoringCase ''Async'' ''read''" "\<not> matchesIgnoringCase ''Read'' ''write''"
    "matchesIgnoringCase ''write'' ''write''" "\<not> matchesIgnoringCase ''Async'' ''write''"
    by code_simp+
  from computeBlockIO_partition [of id blockSample] ascii
  have "computeBlockIO id blockSample =
          (sum_list (map Value (filter (\<lambda>e. matchesIgnoringCase (Op e) ''read'')
             (IoServiceBytesRecursive (BlkioStats blockSample)))),
           sum_list (map Value (filter (\<lambda>e. matchesIgnoringCase (Op e) ''write'')
             (IoServiceBytesRecursive (BlkioStats blockSample)))))"
    by blast
  also have "\<dots> = (1024, 2048)"
    by (simp add: blockSample_def emptyStats_def blkioEntry_def m)
  finally show ?thesis using ascii by simp
qed

text \<open>
  C6. The network and block-I/O totals do not depend on the order of the entries: two
  samples whose interface entries (or block-I/O entries) are the same multiset have the
  same totals, and a sample with no network interface has rx = 0 and tx = 0.
\<close>

theorem aggregation_order_independent:
  "(mset (Networks s) = mset (Networks s') \<longrightarrow> computeNetwork s = computeNetwork s')
   \<and> (mset (IoServiceBytesRecursive (BlkioStats s))
         = mset (IoServiceBytesRecursive (BlkioStats s'))
        \<longrightarrow> computeBlockIO mapLower s = computeBlockIO mapLower s')
   \<and> (Networks s = [] \<longrightarrow> computeNetwork s = (0, 0))"
  by (auto simp: computeNetwork_def computeBlockIO_def sumNetwork_sum_list sumBlockIO_sum_list
      intro: sum_list_mset_cong sum_list_filter_mset_cong)

theorem aggregation_order_independent_witness:
  "mset (Networks blockSample) = mset (Networks blockSamplePermuted)
   \<and> computeNetwork blockSample = computeNetwork blockSamplePermuted
   \<and> mset (IoServiceBytesRecursive (BlkioStats blockSample))
       = mset (IoServiceBytesRecursive (BlkioStats blockSamplePermuted))
   \<and> computeBlockIO id blockSample = computeBlockIO id blockSamplePermuted
   \<and> Networks emptyStats = [] \<and> computeNetwork emptyStats = (0, 0)"
proof -
  have n: "mset (Networks blockSample) = mset (Networks blockSamplePermuted)"
    by (simp add: blockSample_def blockSamplePermuted_def emptyStats_def)
  have b: "mset (IoServiceBytesRecursive (BlkioStats blockSample))
       = mset (IoServiceBytesRecursive (BlkioStats blockSamplePermuted))"
    by (simp add: blockSample_def blockSamplePermuted_def emptyStats_def)
  have e: "Networks emptyStats = []" by (simp add: emptyStats_def)
  show ?thesis
    using n b e aggregation_order_independent [of blockSample blockSamplePermuted id]
      aggregation_order_independent [of emptyStats emptyStats id]
    by blast
qed

section \<open>Properties of the name and the status\<close>

text \<open>
  C10. The displayed name comes from the list of names alone: the empty list gives the
  empty string; otherwise the result is the first entry without one leading \<^verbatim>\<open>/\<close>, if
  it has one. The entries after the first play no part, and a second slash stays.
\<close>

theorem deriveName_first:
  "deriveName [] = '''' \<and>
   deriveName (n # rest) = (if n \<noteq> [] \<and> hd n = CHR ''/'' then tl n else n)"
  by (cases n) (auto simp: deriveName_def TrimPrefix_def)

lemma deriveName_examples:
  "deriveName [''/web'', ''/other''] = ''web''" "deriveName [''//web''] = ''/web''"
  "deriveName [''web''] = ''web''" "deriveName ['''', ''/x''] = ''''"
  by (simp_all add: deriveName_def TrimPrefix_def)

lemma deriveStatus_order:
  "deriveStatus state status =
     (if status \<noteq> '''' then status else if state \<noteq> '''' then state else '''')"
  by (simp add: deriveStatus_def)

section \<open>Properties of the collection\<close>

subsection \<open>The first loop\<close>

lemma listLoop_enumerate:
  "length snaps = i + length cs \<Longrightarrow>
   listLoop cs i (snaps, run) =
     (take i snaps @ map newSnapshot cs,
      run @ map fst (filter (\<lambda>jc. cState (snd jc) = ''running'') (enumerate i cs)))"
proof (induction cs arbitrary: i snaps run)
  case Nil
  then show ?case by simp
next
  case (Cons c cs)
  have len: "length (snaps[i := newSnapshot c]) = Suc i + length cs"
    using Cons.prems by simp
  have tk: "take (Suc i) (snaps[i := newSnapshot c]) = take i snaps @ [newSnapshot c]"
    using Cons.prems by (simp add: take_Suc_conv_app_nth)
  show ?case
    using Cons.IH [OF len] tk by simp
qed

lemma startPool_eq:
  "startPool cs =
     \<lparr>snapshots = map newSnapshot cs,
      pending = map fst (filter (\<lambda>jc. cState (snd jc) = ''running'') (enumerate 0 cs)),
      sem = 0, spawned = [], fetching = [], returned = [], calls = []\<rparr>"
  by (simp add: startPool_def listLoop_enumerate)

lemma set_pending_startPool:
  "set (pending (startPool cs)) = {j. j < length cs \<and> cState (cs ! j) = ''running''}"
  by (auto simp: startPool_eq in_set_enumerate_eq image_iff)

lemma distinct_pending_startPool: "distinct (pending (startPool cs))"
  by (simp add: startPool_eq distinct_map_filter)

lemma map_filter_snd_enumerate:
  "map (\<lambda>jc. f (snd jc)) (filter (\<lambda>jc. P (snd jc)) (enumerate n cs)) = map f (filter P cs)"
  by (induction cs arbitrary: n) auto

lemma ids_pending_startPool:
  "map (\<lambda>j. cID (cs ! j)) (pending (startPool cs))
     = map cID (filter (\<lambda>c. cState c = ''running'') cs)"
proof -
  let ?P = "\<lambda>jc. cState (snd jc) = ''running''"
  have "map (\<lambda>j. cID (cs ! j)) (map fst (filter ?P (enumerate 0 cs)))
          = map (\<lambda>jc. cID (snd jc)) (filter ?P (enumerate 0 cs))"
    by (auto simp: in_set_enumerate_eq)
  also have "\<dots> = map cID (filter (\<lambda>c. cState c = ''running'') cs)"
    by (rule map_filter_snd_enumerate)
  finally show ?thesis by (simp add: startPool_eq)
qed

lemma length_pending_startPool:
  "length (pending (startPool cs)) = length (filter (\<lambda>c. cState c = ''running'') cs)"
  using arg_cong [OF ids_pending_startPool, of length] by simp

subsection \<open>The goroutine of a slot\<close>

lemma worker_ID: "ID (worker m cli slot) = ID slot"
  by (simp add: worker_def populateStats_def Let_def split: sum.splits prod.splits)

lemma worker_Name: "Name (worker m cli slot) = Name slot"
  by (simp add: worker_def populateStats_def Let_def split: sum.splits prod.splits)

lemma worker_failed:
  assumes "ContainerStats cli (ID slot) = Inl e \<or> ContainerStats cli (ID slot) = Inr (Inl e)"
  shows "worker m cli slot = slot\<lparr>Status := ''ERROR''\<rparr>"
  using assms by (auto simp: worker_def populateStats_def)

lemma worker_succeeded:
  assumes "ContainerStats cli (ID slot) = Inr (Inr sj)"
  shows "worker m cli slot =
     slot\<lparr>CPUPercent := computeCPUPercent sj,
          MemUsage := fst (computeMemory sj),
          MemLimit := fst (snd (computeMemory sj)),
          MemPercent := snd (snd (computeMemory sj)),
          NetRx := fst (computeNetwork sj),
          NetTx := snd (computeNetwork sj),
          BlockRead := fst (computeBlockIO m sj),
          BlockWrite := snd (computeBlockIO m sj),
          PIDs := (if Current (PidsStats sj) \<noteq> 0 then sint (Current (PidsStats sj)) else 0)\<rparr>"
  using assms by (simp add: worker_def populateStats_def Let_def split: prod.splits)

subsection \<open>The admission gate\<close>

lemma length_remove1_mem: "i \<in> set xs \<Longrightarrow> length xs = Suc (length (remove1 i xs))"
  using length_pos_if_in_set [of i xs] by (simp add: length_remove1)

lemma poolStep_gateInv:
  assumes "poolStep m cli cap p e = Some p'" and "gateInv cap p"
  shows "gateInv cap p'"
proof (cases e)
  case Submit
  then show ?thesis using assms
    by (auto simp: gateInv_def split: list.splits if_splits)
next
  case (Begin i)
  then show ?thesis using assms length_remove1_mem [of i "spawned p"]
    by (auto simp: gateInv_def split: if_splits)
next
  case (End i)
  then show ?thesis using assms length_remove1_mem [of i "fetching p"]
    by (auto simp: gateInv_def split: if_splits)
next
  case (Release i)
  then show ?thesis using assms length_remove1_mem [of i "returned p"]
    by (auto simp: gateInv_def split: if_splits)
qed

lemma runPool_gateInv:
  "runPool m cli cap p evs = Some p' \<Longrightarrow> gateInv cap p \<Longrightarrow> gateInv cap p'"
proof (induction evs arbitrary: p)
  case Nil
  then show ?case by simp
next
  case (Cons e evs)
  then show ?case by (auto split: option.splits dest: poolStep_gateInv)
qed

lemma gateInv_startPool: "gateInv cap (startPool cs)"
  by (simp add: gateInv_def startPool_eq)

lemma concurrency_min: "concurrency xs = min 16 (length xs)"
  by (simp add: concurrency_def)

text \<open>No execution gets stuck: from every state that satisfies \<open>gateInv\<close>, under a
  channel of capacity at least 1, some continuation ends with \<^verbatim>\<open>wg.Wait\<close> returning.\<close>

lemma pool_can_finish:
  assumes "gateInv cap p" and "0 < cap"
  shows "\<exists>evs p'. runPool m cli cap p evs = Some p' \<and> joined p'"
  using assms(1)
proof (induction "4 * length (pending p) + 3 * length (spawned p) + 2 * length (fetching p)
                    + length (returned p)" arbitrary: p rule: less_induct)
  case less
  have ext: "\<exists>evs p'. runPool m cli cap p evs = Some p' \<and> joined p'"
    if "poolStep m cli cap p e = Some q"
      and "4 * length (pending q) + 3 * length (spawned q) + 2 * length (fetching q)
             + length (returned q)
           < 4 * length (pending p) + 3 * length (spawned p) + 2 * length (fetching p)
             + length (returned p)" for e q
  proof -
    have "gateInv cap q" using poolStep_gateInv [OF that(1) less.prems] .
    from less.hyps [OF that(2) this] obtain evs p'
      where "runPool m cli cap q evs = Some p'" "joined p'" by blast
    then have "runPool m cli cap p (e # evs) = Some p' \<and> joined p'"
      using that(1) by simp
    then show ?thesis by blast
  qed
  show ?case
  proof (cases "returned p")
    case (Cons i rest)
    show ?thesis
      by (rule ext [of "Release i" "p\<lparr>sem := sem p - 1, returned := remove1 i (returned p)\<rparr>"])
        (simp_all add: Cons)
  next
    case r: Nil
    show ?thesis
    proof (cases "fetching p")
      case (Cons i rest)
      show ?thesis
        by (rule ext [of "End i"
              "p\<lparr>snapshots := (snapshots p)[i := worker m cli (snapshots p ! i)],
                 fetching := remove1 i (fetching p), returned := returned p @ [i]\<rparr>"])
          (simp_all add: Cons)
    next
      case f: Nil
      show ?thesis
      proof (cases "spawned p")
        case (Cons i rest)
        show ?thesis
          by (rule ext [of "Begin i"
                "p\<lparr>spawned := remove1 i (spawned p), fetching := fetching p @ [i],
                   calls := calls p @ [ID (snapshots p ! i)]\<rparr>"])
            (simp_all add: Cons)
      next
        case s: Nil
        show ?thesis
        proof (cases "pending p")
          case Nil
          then have "runPool m cli cap p [] = Some p \<and> joined p"
            using r f s by (simp add: joined_def)
          then show ?thesis by blast
        next
          case (Cons i rest)
          have "sem p = 0" using less.prems r f s by (simp add: gateInv_def)
          then show ?thesis
            using assms(2)
            by (intro ext [of Submit
                  "p\<lparr>pending := rest, sem := sem p + 1, spawned := spawned p @ [i]\<rparr>"])
              (simp_all add: Cons s)
        qed
      qed
    qed
  qed
qed

text \<open>Every event uses up one of the \<open>remaining\<close> events, so an execution from the
  state after the first loop has at most four events for each running container, and
  exactly that many when it is complete.\<close>

lemma poolStep_remaining:
  assumes "poolStep m cli cap p e = Some p'"
  shows "Suc (remaining p') = remaining p"
proof (cases e)
  case Submit
  then show ?thesis using assms
    by (auto simp: remaining_def split: list.splits if_splits)
next
  case (Begin i)
  then show ?thesis using assms length_remove1_mem [of i "spawned p"]
    by (auto simp: remaining_def split: if_splits)
next
  case (End i)
  then show ?thesis using assms length_remove1_mem [of i "fetching p"]
    by (auto simp: remaining_def split: if_splits)
next
  case (Release i)
  then show ?thesis using assms length_remove1_mem [of i "returned p"]
    by (auto simp: remaining_def split: if_splits)
qed

lemma runPool_remaining:
  "runPool m cli cap p evs = Some p' \<Longrightarrow> length evs + remaining p' = remaining p"
proof (induction evs arbitrary: p)
  case Nil
  then show ?case by simp
next
  case (Cons e evs)
  then obtain q where q: "poolStep m cli cap p e = Some q" "runPool m cli cap q evs = Some p'"
    by (auto split: option.splits)
  show ?case
    using Cons.IH [OF q(2)] poolStep_remaining [OF q(1)] by simp
qed

lemma joined_remaining: "joined p \<longleftrightarrow> remaining p = 0"
  by (auto simp: joined_def remaining_def)

subsection \<open>The slots and the calls\<close>

lemma slotsInv_startPool: "slotsInv m cli cs (startPool cs)"
proof -
  have "finalSlot m cli (cs ! j) = newSnapshot (cs ! j)"
    if "j < length cs" "j \<notin> set (pending (startPool cs))" for j
    using that by (simp add: set_pending_startPool finalSlot_def)
  then show ?thesis
    unfolding slotsInv_def
    using set_pending_startPool [of cs] distinct_pending_startPool [of cs]
    by (simp add: startPool_eq)
qed

lemma slotsInv_Submit:
  assumes "slotsInv m cli cs p" and "pending p = i # rest"
  shows "slotsInv m cli cs (p\<lparr>pending := rest, sem := k, spawned := spawned p @ [i]\<rparr>)"
  using assms unfolding slotsInv_def by auto

lemma slotsInv_Begin:
  assumes "slotsInv m cli cs p" and "i \<in> set (spawned p)"
  shows "slotsInv m cli cs (p\<lparr>spawned := remove1 i (spawned p), fetching := fetching p @ [i],
           calls := k\<rparr>)"
proof -
  have d: "distinct (spawned p)" using assms(1) by (simp add: slotsInv_def)
  have s: "set (remove1 i (spawned p)) = set (spawned p) - {i}" using d by simp
  have "insert i (set (spawned p) - {i}) = set (spawned p)" using assms(2) by auto
  then show ?thesis
    using assms unfolding slotsInv_def by (auto simp: s)
qed

lemma slotsInv_End:
  assumes "slotsInv m cli cs p" and "i \<in> set (fetching p)"
  shows "slotsInv m cli cs
           (p\<lparr>snapshots := (snapshots p)[i := worker m cli (snapshots p ! i)],
              fetching := remove1 i (fetching p), returned := returned p @ [i]\<rparr>)"
    (is "slotsInv m cli cs ?q")
proof -
  have d: "distinct (fetching p)" using assms(1) by (simp add: slotsInv_def)
  have s: "set (remove1 i (fetching p)) = set (fetching p) - {i}" using d by simp
  have i: "i < length cs" "cState (cs ! i) = ''running''"
    using assms by (auto simp: slotsInv_def)
  have old: "snapshots p ! i = newSnapshot (cs ! i)"
    using assms i by (simp add: slotsInv_def)
  have new: "worker m cli (snapshots p ! i) = finalSlot m cli (cs ! i)"
    using i old by (simp add: finalSlot_def)
  have notin: "i \<notin> set (pending p)" "i \<notin> set (spawned p)" "i \<notin> set (returned p)"
    using assms by (auto simp: slotsInv_def)
  show ?thesis
    unfolding slotsInv_def
  proof (intro conjI allI impI ballI)
    show "length (snapshots ?q) = length cs"
      using assms(1) by (simp add: slotsInv_def)
  next
    show "distinct (pending ?q @ spawned ?q @ fetching ?q @ returned ?q)"
      using assms notin unfolding slotsInv_def by (auto simp: s)
  next
    fix j
    assume "j \<in> set (pending ?q @ spawned ?q @ fetching ?q @ returned ?q)"
    then have "j \<in> set (pending p @ spawned p @ fetching p @ returned p)"
      using assms(2) by (auto simp: s)
    then show "j < length cs" "cState (cs ! j) = ''running''"
      using assms(1) unfolding slotsInv_def by blast+
  next
    fix j
    assume j: "j < length cs"
    show "snapshots ?q ! j =
      (if j \<in> set (pending ?q @ spawned ?q @ fetching ?q)
       then newSnapshot (cs ! j) else finalSlot m cli (cs ! j))"
    proof (cases "j = i")
      case True
      then show ?thesis using i notin new assms(1) by (simp add: s slotsInv_def)
    next
      case False
      have "snapshots p ! j =
              (if j \<in> set (pending p @ spawned p @ fetching p) then newSnapshot (cs ! j)
               else finalSlot m cli (cs ! j))"
        using assms(1) j unfolding slotsInv_def by blast
      then show ?thesis using False by (simp add: s)
    qed
  qed
qed

lemma slotsInv_Release:
  assumes "slotsInv m cli cs p" and "i \<in> set (returned p)"
  shows "slotsInv m cli cs (p\<lparr>sem := k, returned := remove1 i (returned p)\<rparr>)"
proof -
  have d: "distinct (returned p)" using assms(1) by (simp add: slotsInv_def)
  have s: "set (remove1 i (returned p)) = set (returned p) - {i}" using d by simp
  show ?thesis
    using assms unfolding slotsInv_def by (auto simp: s)
qed

lemma poolStep_slotsInv:
  assumes "poolStep m cli cap p e = Some p'" and "slotsInv m cli cs p"
  shows "slotsInv m cli cs p'"
proof (cases e)
  case Submit
  then show ?thesis using assms
    by (auto split: list.splits if_splits intro: slotsInv_Submit)
next
  case (Begin i)
  then show ?thesis using assms
    by (auto split: if_splits intro: slotsInv_Begin)
next
  case (End i)
  then show ?thesis using assms
    by (auto split: if_splits intro: slotsInv_End)
next
  case (Release i)
  then show ?thesis using assms
    by (auto split: if_splits intro: slotsInv_Release)
qed

lemma runPool_slotsInv:
  "runPool m cli cap p evs = Some p' \<Longrightarrow> slotsInv m cli cs p \<Longrightarrow> slotsInv m cli cs p'"
proof (induction evs arbitrary: p)
  case Nil
  then show ?case by simp
next
  case (Cons e evs)
  then show ?case by (auto split: option.splits dest: poolStep_slotsInv)
qed

lemma callsInv_startPool: "callsInv cs (startPool cs)"
  by (simp add: callsInv_def startPool_eq)

lemma image_mset_remove1:
  "i \<in> set xs \<Longrightarrow> add_mset (f i) (image_mset f (mset (remove1 i xs))) = image_mset f (mset xs)"
  by (metis image_mset_add_mset insert_DiffM mset_remove1 set_mset_mset)

lemma poolStep_callsInv:
  assumes "poolStep m cli cap p e = Some p'" and "slotsInv m cli cs p" and "callsInv cs p"
  shows "callsInv cs p'"
proof (cases e)
  case Submit
  then show ?thesis using assms
    by (auto simp: callsInv_def split: list.splits if_splits)
next
  case (Begin i)
  then have i: "i \<in> set (spawned p)"
    and p': "p' = p\<lparr>spawned := remove1 i (spawned p), fetching := fetching p @ [i],
                   calls := calls p @ [ID (snapshots p ! i)]\<rparr>"
    using assms(1) by (auto split: if_splits)
  have "i < length cs" "snapshots p ! i = newSnapshot (cs ! i)"
    using assms(2) i by (auto simp: slotsInv_def)
  then have id: "ID (snapshots p ! i) = cID (cs ! i)"
    by (simp add: newSnapshot_def zeroSnapshot_def)
  have eq: "image_mset (\<lambda>j. cID (cs ! j)) (mset (spawned p))
              = add_mset (cID (cs ! i))
                  (image_mset (\<lambda>j. cID (cs ! j)) (mset (spawned p) - {#i#}))"
    using image_mset_remove1 [OF i, of "\<lambda>j. cID (cs ! j)"] by simp
  show ?thesis
    using assms(3) unfolding callsInv_def p' by (simp add: id eq)
next
  case (End i)
  then show ?thesis using assms
    by (auto simp: callsInv_def split: if_splits)
next
  case (Release i)
  then show ?thesis using assms
    by (auto simp: callsInv_def split: if_splits)
qed

lemma runPool_callsInv:
  "runPool m cli cap p evs = Some p' \<Longrightarrow> slotsInv m cli cs p \<Longrightarrow> callsInv cs p
     \<Longrightarrow> callsInv cs p'"
proof (induction evs arbitrary: p)
  case Nil
  then show ?case by simp
next
  case (Cons e evs)
  then show ?case
    by (auto split: option.splits dest: poolStep_slotsInv poolStep_callsInv)
qed

lemma joined_snapshots:
  assumes "slotsInv m cli cs p" and "joined p"
  shows "snapshots p = map (finalSlot m cli) cs"
  using assms by (intro nth_equalityI) (auto simp: slotsInv_def joined_def)

lemma joined_calls:
  assumes "callsInv cs p" and "joined p"
  shows "mset (calls p) = mset (map cID (filter (\<lambda>c. cState c = ''running'') cs))"
proof -
  have "mset (calls p) = image_mset (\<lambda>j. cID (cs ! j)) (mset (pending (startPool cs)))"
    using assms by (simp add: callsInv_def joined_def)
  also have "\<dots> = mset (map (\<lambda>j. cID (cs ! j)) (pending (startPool cs)))"
    by simp
  finally show ?thesis by (simp only: ids_pending_startPool)
qed

lemma no_running_snapshots:
  assumes "pending (startPool cs) = []"
  shows "snapshots (startPool cs) = map (finalSlot m cli) cs"
    and "filter (\<lambda>c. cState c = ''running'') cs = []"
proof -
  show "filter (\<lambda>c. cState c = ''running'') cs = []"
    using length_pending_startPool [of cs] assms by simp
  then have "\<forall>c \<in> set cs. cState c \<noteq> ''running''"
    by (simp add: filter_empty_conv)
  then show "snapshots (startPool cs) = map (finalSlot m cli) cs"
    by (simp add: startPool_eq finalSlot_def)
qed

subsection \<open>The result of a cycle\<close>

text \<open>
  Whatever the schedule, the value of \<^verbatim>\<open>CollectSnapshots\<close> after a successful listing
  is the list of the final slots of the containers, in the order of the listing, and
  the calls of \<^verbatim>\<open>ContainerStats\<close> are one for each running container.
\<close>

lemma CollectSnapshots_result:
  assumes "CollectSnapshots m cli includeAll evs = Some (r, c)"
    and "ContainerList cli includeAll = Inr cs"
  shows "r = Inr (map (finalSlot m cli) cs)"
    and "mset c = mset (map cID (filter (\<lambda>c. cState c = ''running'') cs))"
proof -
  show "r = Inr (map (finalSlot m cli) cs)"
  proof (cases "pending (startPool cs) = []")
    case True
    then show ?thesis
      using assms no_running_snapshots(1) [OF True, of m cli]
      by (simp add: CollectSnapshots_def Let_def)
  next
    case False
    then obtain p'
      where run: "runPool m cli (concurrency (pending (startPool cs))) (startPool cs) evs = Some p'"
        and j: "joined p'" and r: "r = Inr (snapshots p')"
      using assms by (auto simp: CollectSnapshots_def Let_def split: option.splits if_splits)
    have "slotsInv m cli cs p'"
      using runPool_slotsInv [OF run slotsInv_startPool] .
    then show ?thesis using j r by (simp add: joined_snapshots)
  qed
  show "mset c = mset (map cID (filter (\<lambda>c. cState c = ''running'') cs))"
  proof (cases "pending (startPool cs) = []")
    case True
    then show ?thesis
      using assms no_running_snapshots(2) [OF True]
      by (simp add: CollectSnapshots_def Let_def)
  next
    case False
    then obtain p'
      where run: "runPool m cli (concurrency (pending (startPool cs))) (startPool cs) evs = Some p'"
        and j: "joined p'" and c: "c = calls p'"
      using assms by (auto simp: CollectSnapshots_def Let_def split: option.splits if_splits)
    have "callsInv cs p'"
      using runPool_callsInv [OF run slotsInv_startPool callsInv_startPool] .
    then show ?thesis using j c by (simp add: joined_calls)
  qed
qed

text \<open>After a successful listing some schedule lets the call return.\<close>

lemma CollectSnapshots_returns:
  assumes "ContainerList cli includeAll = Inr cs"
  shows "\<exists>evs c. CollectSnapshots m cli includeAll evs = Some (Inr (map (finalSlot m cli) cs), c)"
proof (cases "pending (startPool cs) = []")
  case True
  then show ?thesis
    using assms no_running_snapshots(1) [OF True, of m cli]
    by (simp add: CollectSnapshots_def Let_def)
next
  case False
  then have "0 < concurrency (pending (startPool cs))"
    by (simp add: concurrency_def)
  from pool_can_finish [OF gateInv_startPool this]
  obtain evs p'
    where run: "runPool m cli (concurrency (pending (startPool cs))) (startPool cs) evs = Some p'"
      and j: "joined p'" by blast
  have "snapshots p' = map (finalSlot m cli) cs"
    using runPool_slotsInv [OF run slotsInv_startPool] j by (rule joined_snapshots)
  then have "CollectSnapshots m cli includeAll evs
               = Some (Inr (map (finalSlot m cli) cs), calls p')"
    using assms False run j by (simp add: CollectSnapshots_def Let_def)
  then show ?thesis by blast
qed

lemma runPool_append:
  "runPool m cli cap p (xs @ ys) =
     (case runPool m cli cap p xs of None \<Rightarrow> None | Some q \<Rightarrow> runPool m cli cap q ys)"
  by (induction xs arbitrary: p) (auto split: option.splits)

text \<open>Every execution of the goroutines, however far it has come, has a continuation
  with which the call returns.\<close>

lemma CollectSnapshots_extends:
  assumes "ContainerList cli includeAll = Inr cs"
    and "runPool m cli (concurrency (pending (startPool cs))) (startPool cs) evs = Some p"
    and "pending (startPool cs) \<noteq> []"
  shows "\<exists>evs' c. CollectSnapshots m cli includeAll (evs @ evs')
                     = Some (Inr (map (finalSlot m cli) cs), c)"
proof -
  let ?cap = "concurrency (pending (startPool cs))"
  have cap: "0 < ?cap" using assms(3) by (simp add: concurrency_def)
  have "gateInv ?cap p" using runPool_gateInv [OF assms(2) gateInv_startPool] .
  from pool_can_finish [OF this cap]
  obtain evs' p' where ext: "runPool m cli ?cap p evs' = Some p'" and j: "joined p'"
    by blast
  have run: "runPool m cli ?cap (startPool cs) (evs @ evs') = Some p'"
    using assms(2) ext by (simp add: runPool_append)
  have "snapshots p' = map (finalSlot m cli) cs"
    using runPool_slotsInv [OF run slotsInv_startPool] j by (rule joined_snapshots)
  then have "CollectSnapshots m cli includeAll (evs @ evs')
               = Some (Inr (map (finalSlot m cli) cs), calls p')"
    using assms(1,3) run j by (simp add: CollectSnapshots_def Let_def)
  then show ?thesis by blast
qed

text \<open>The schedule that runs the goroutines one after the other lets the call return.\<close>

lemma oneByOne_completes:
  assumes "0 < cap" and "spawned p = []" and "fetching p = []" and "returned p = []"
    and "sem p = 0"
  shows "\<exists>p'. runPool m cli cap p (oneByOne (pending p)) = Some p' \<and> joined p'"
  using assms(2-)
proof (induction "pending p" arbitrary: p)
  case Nil
  then show ?case by (simp add: oneByOne_def joined_def)
next
  case (Cons i rest)
  let ?q = "p\<lparr>pending := rest, sem := 0, spawned := [], fetching := [], returned := [],
               snapshots := (snapshots p)[i := worker m cli (snapshots p ! i)],
               calls := calls p @ [ID (snapshots p ! i)]\<rparr>"
  have step: "runPool m cli cap p [Submit, Begin i, End i, Release i] = Some ?q"
    using Cons.hyps(2) [symmetric] Cons.prems assms(1) by simp
  have "\<exists>p'. runPool m cli cap ?q (oneByOne (pending ?q)) = Some p' \<and> joined p'"
    by (rule Cons.hyps(1)) simp_all
  then obtain p' where "runPool m cli cap ?q (oneByOne rest) = Some p'" "joined p'"
    by auto
  moreover have "oneByOne (pending p) = [Submit, Begin i, End i, Release i] @ oneByOne rest"
    using Cons.hyps(2) [symmetric] by (simp add: oneByOne_def)
  ultimately show ?case
    using step by (simp only: runPool_append option.case) blast
qed

lemma CollectSnapshots_oneByOne:
  assumes "ContainerList cli includeAll = Inr cs"
  shows "\<exists>c. CollectSnapshots m cli includeAll (oneByOne (pending (startPool cs)))
               = Some (Inr (map (finalSlot m cli) cs), c)"
proof (cases "pending (startPool cs) = []")
  case True
  then show ?thesis
    using assms no_running_snapshots(1) [OF True, of m cli]
    by (simp add: CollectSnapshots_def Let_def)
next
  case False
  let ?cap = "concurrency (pending (startPool cs))"
  have cap: "0 < ?cap" using False by (simp add: concurrency_def)
  have "\<exists>p'. runPool m cli ?cap (startPool cs) (oneByOne (pending (startPool cs))) = Some p'
          \<and> joined p'"
    by (rule oneByOne_completes [OF cap]) (simp_all add: startPool_eq)
  then obtain p'
    where run: "runPool m cli ?cap (startPool cs) (oneByOne (pending (startPool cs))) = Some p'"
      and j: "joined p'" by blast
  have "snapshots p' = map (finalSlot m cli) cs"
    using runPool_slotsInv [OF run slotsInv_startPool] j by (rule joined_snapshots)
  then have "CollectSnapshots m cli includeAll (oneByOne (pending (startPool cs)))
               = Some (Inr (map (finalSlot m cli) cs), calls p')"
    using assms False run j by (simp add: CollectSnapshots_def Let_def)
  then show ?thesis by blast
qed


subsection \<open>The sample cycle\<close>

lemma fullSample_metrics:
  "computeCPUPercent fullSample = 40"
  "computeMemory fullSample = (104857600, 2147483648, 4.8828125)"
  "computeNetwork fullSample = (13, 24)"
  "computeBlockIO id fullSample = (1024, 2048)"
proof -
  show "computeCPUPercent fullSample = 40"
    by (simp add: fullSample_def computeCPUPercent_def Let_def float64_of_uint64_def)
  show "computeMemory fullSample = (104857600, 2147483648, 4.8828125)"
    by (simp add: fullSample_def computeMemory_def Let_def float64_of_uint64_def)
  show "computeNetwork fullSample = (13, 24)"
    by (simp add: fullSample_def computeNetwork_def)
  have l: "ToLower id ''Read'' = ''read''" "ToLower id ''write'' = ''write''"
    "ToLower id ''Async'' = ''async''"
    by code_simp+
  show "computeBlockIO id fullSample = (1024, 2048)"
    by (simp add: fullSample_def computeBlockIO_def blkioEntry_def l)
qed

lemma emptyStats_metrics:
  "computeCPUPercent emptyStats = 0"
  "computeMemory emptyStats = (0, 0, 0)"
  "computeNetwork emptyStats = (0, 0)"
  "computeBlockIO id emptyStats = (0, 0)"
  by (simp_all add: emptyStats_def noCPU_def computeCPUPercent_def computeMemory_def
      computeNetwork_def computeBlockIO_def Let_def float64_of_uint64_def)

lemma sample_slots:
  "map newSnapshot sampleContainers =
     [zeroSnapshot\<lparr>ID := ''aaa'', Name := ''web'', Status := ''Up 2 minutes''\<rparr>,
      zeroSnapshot\<lparr>ID := ''bbb'', Name := ''db'', Status := ''Exited (0) 3 hours ago''\<rparr>,
      zeroSnapshot\<lparr>ID := ''ccc'', Name := ''cache'', Status := ''Up 5 seconds''\<rparr>,
      zeroSnapshot\<lparr>ID := ''ddd'', Name := ''job'', Status := ''running''\<rparr>,
      zeroSnapshot\<lparr>ID := ''eee'', Name := '''', Status := ''Up 1 hour''\<rparr>]"
  by (simp add: sampleContainers_def newSnapshot_def deriveName_def deriveStatus_def
      TrimPrefix_def)

lemma sample_startPool:
  "startPool sampleContainers =
     \<lparr>snapshots = map newSnapshot sampleContainers, pending = [0, 2, 3, 4], sem = 0,
      spawned = [], fetching = [], returned = [], calls = []\<rparr>"
  by (simp add: startPool_eq) (simp add: sampleContainers_def enumerate_eq_zip)

lemma sample_workers:
  "worker id sampleClient (map newSnapshot sampleContainers ! 0) = sampleSnapshots ! 0"
  "worker id sampleClient (map newSnapshot sampleContainers ! 2) = sampleSnapshots ! 2"
  "worker id sampleClient (map newSnapshot sampleContainers ! 3) = sampleSnapshots ! 3"
  "worker id sampleClient (map newSnapshot sampleContainers ! 4) = sampleSnapshots ! 4"
  by (simp_all add: sample_slots worker_def populateStats_def sampleClient_def
      fullSample_metrics emptyStats_metrics sampleSnapshots_def zeroSnapshot_def)
     (simp_all add: fullSample_def emptyStats_def)

lemma sample_run:
  "CollectSnapshots id sampleClient True sampleSchedule
     = Some (Inr sampleSnapshots, [''ccc'', ''aaa'', ''eee'', ''ddd''])"
  by (simp add: CollectSnapshots_def sampleClient_def sample_startPool Let_def
        concurrency_def sampleSchedule_def joined_def sample_workers [unfolded sampleClient_def])
     (simp add: sampleSnapshots_def sample_slots zeroSnapshot_def)

lemma sample_list: "ContainerList sampleClient True = Inr sampleContainers"
  by (simp add: sampleClient_def)

subsection \<open>Order, failures and status\<close>

text \<open>
  C2. When the listing returns N containers, \<^verbatim>\<open>CollectSnapshots\<close> returns for some
  schedule of its goroutines, and under every schedule it returns N snapshots in the
  order of the listing: the snapshot at index i carries the ID and the name of the
  container at index i. A container that
  is not in the state \<^verbatim>\<open>running\<close> keeps the zero metrics and the status derived from
  the listing, and the calls of \<^verbatim>\<open>ContainerStats\<close> are exactly one for each running
  container, so that no other container is submitted to the fetcher.
\<close>

theorem CollectSnapshots_order:
  assumes "ContainerList cli includeAll = Inr cs"
  shows "(\<exists>evs snaps fetched.
            CollectSnapshots mapLower cli includeAll evs = Some (Inr snaps, fetched))
     \<and> (\<forall>evs r fetched.
          CollectSnapshots mapLower cli includeAll evs = Some (r, fetched) \<longrightarrow>
          (\<exists>snaps. r = Inr snaps \<and> length snaps = length cs
             \<and> (\<forall>i<length cs. ID (snaps ! i) = cID (cs ! i)
                    \<and> Name (snaps ! i) = deriveName (cNames (cs ! i)))
             \<and> (\<forall>i<length cs. cState (cs ! i) \<noteq> ''running'' \<longrightarrow>
                    snaps ! i =
                      zeroSnapshot\<lparr>ID := cID (cs ! i), Name := deriveName (cNames (cs ! i)),
                                   Status := deriveStatus (cState (cs ! i)) (cStatus (cs ! i))\<rparr>)
             \<and> mset fetched = mset (map cID (filter (\<lambda>c. cState c = ''running'') cs))))"
proof (intro conjI allI impI)
  show "\<exists>evs snaps fetched.
          CollectSnapshots mapLower cli includeAll evs = Some (Inr snaps, fetched)"
    using CollectSnapshots_returns [OF assms, of mapLower] by blast
next
  fix evs r fetched
  assume run: "CollectSnapshots mapLower cli includeAll evs = Some (r, fetched)"
  have r: "r = Inr (map (finalSlot mapLower cli) cs)"
    and f: "mset fetched = mset (map cID (filter (\<lambda>c. cState c = ''running'') cs))"
    using CollectSnapshots_result [OF run assms] by blast+
  have "ID (finalSlot mapLower cli c) = cID c
          \<and> Name (finalSlot mapLower cli c) = deriveName (cNames c)" for c
    by (simp add: finalSlot_def worker_ID worker_Name newSnapshot_def)
  moreover have "finalSlot mapLower cli c = newSnapshot c" if "cState c \<noteq> ''running''" for c
    using that by (simp add: finalSlot_def)
  ultimately show "\<exists>snaps. r = Inr snaps \<and> length snaps = length cs
             \<and> (\<forall>i<length cs. ID (snaps ! i) = cID (cs ! i)
                    \<and> Name (snaps ! i) = deriveName (cNames (cs ! i)))
             \<and> (\<forall>i<length cs. cState (cs ! i) \<noteq> ''running'' \<longrightarrow>
                    snaps ! i =
                      zeroSnapshot\<lparr>ID := cID (cs ! i), Name := deriveName (cNames (cs ! i)),
                                   Status := deriveStatus (cState (cs ! i)) (cStatus (cs ! i))\<rparr>)
             \<and> mset fetched = mset (map cID (filter (\<lambda>c. cState c = ''running'') cs))"
    using r f by (simp add: newSnapshot_def)
qed

theorem CollectSnapshots_order_witness:
  "ContainerList sampleClient True = Inr sampleContainers
   \<and> CollectSnapshots id sampleClient True sampleSchedule
       = Some (Inr sampleSnapshots, [''ccc'', ''aaa'', ''eee'', ''ddd''])
   \<and> length sampleSnapshots = length sampleContainers
   \<and> map ID sampleSnapshots = map cID sampleContainers
   \<and> cState (sampleContainers ! 1) \<noteq> ''running''
   \<and> sampleSnapshots ! 1 =
       zeroSnapshot\<lparr>ID := ''bbb'', Name := ''db'', Status := ''Exited (0) 3 hours ago''\<rparr>
   \<and> mset [''ccc'', ''aaa'', ''eee'', ''ddd'']
       = mset (map cID (filter (\<lambda>c. cState c = ''running'') sampleContainers))"
proof -
  from CollectSnapshots_order [OF sample_list, of id] sample_run
  have "\<exists>snaps. Inr sampleSnapshots = Inr snaps \<and> length snaps = length sampleContainers
     \<and> (\<forall>i<length sampleContainers. ID (snaps ! i) = cID (sampleContainers ! i)
            \<and> Name (snaps ! i) = deriveName (cNames (sampleContainers ! i)))
     \<and> (\<forall>i<length sampleContainers. cState (sampleContainers ! i) \<noteq> ''running'' \<longrightarrow>
            snaps ! i =
              zeroSnapshot\<lparr>ID := cID (sampleContainers ! i),
                           Name := deriveName (cNames (sampleContainers ! i)),
                           Status := deriveStatus (cState (sampleContainers ! i))
                                       (cStatus (sampleContainers ! i))\<rparr>)
     \<and> mset [''ccc'', ''aaa'', ''eee'', ''ddd'']
         = mset (map cID (filter (\<lambda>c. cState c = ''running'') sampleContainers))"
    by blast
  then have "length sampleSnapshots = length sampleContainers
     \<and> mset [''ccc'', ''aaa'', ''eee'', ''ddd'']
         = mset (map cID (filter (\<lambda>c. cState c = ''running'') sampleContainers))"
    by auto
  then show ?thesis
    using sample_list sample_run
    by (simp add: sampleSnapshots_def sampleContainers_def zeroSnapshot_def)
qed

text \<open>
  C3. \<^verbatim>\<open>CollectSnapshots\<close> returns an error exactly when \<^verbatim>\<open>ContainerList\<close> fails: with
  a failed listing it returns that error, and with a successful listing it returns for
  some schedule and never returns an error. When the fetch or the decoding fails for a
  running container, the status of its snapshot is \<^verbatim>\<open>ERROR\<close> and its metrics are the
  zero values; the snapshot of every other running container whose fetch succeeded
  carries the metrics of its own sample.
\<close>

theorem CollectSnapshots_failures:
  "(ContainerList cli includeAll = Inl err \<longrightarrow>
      CollectSnapshots mapLower cli includeAll evs = Some (Inl err, []))
   \<and> (ContainerList cli includeAll = Inr cs \<longrightarrow>
        (\<exists>evs' snaps fetched.
            CollectSnapshots mapLower cli includeAll evs' = Some (Inr snaps, fetched))
        \<and> (\<forall>e fetched. CollectSnapshots mapLower cli includeAll evs \<noteq> Some (Inl e, fetched))
        \<and> (\<forall>snaps fetched i e.
              CollectSnapshots mapLower cli includeAll evs = Some (Inr snaps, fetched)
              \<and> i < length cs \<and> cState (cs ! i) = ''running''
              \<and> (ContainerStats cli (cID (cs ! i)) = Inl e
                   \<or> ContainerStats cli (cID (cs ! i)) = Inr (Inl e))
              \<longrightarrow> snaps ! i =
                    zeroSnapshot\<lparr>ID := cID (cs ! i), Name := deriveName (cNames (cs ! i)),
                                 Status := ''ERROR''\<rparr>)
        \<and> (\<forall>snaps fetched j sj.
              CollectSnapshots mapLower cli includeAll evs = Some (Inr snaps, fetched)
              \<and> j < length cs \<and> cState (cs ! j) = ''running''
              \<and> ContainerStats cli (cID (cs ! j)) = Inr (Inr sj)
              \<longrightarrow> snaps ! j =
                    zeroSnapshot
                      \<lparr>ID := cID (cs ! j), Name := deriveName (cNames (cs ! j)),
                       Status := deriveStatus (cState (cs ! j)) (cStatus (cs ! j)),
                       CPUPercent := computeCPUPercent sj,
                       MemUsage := fst (computeMemory sj),
                       MemLimit := fst (snd (computeMemory sj)),
                       MemPercent := snd (snd (computeMemory sj)),
                       NetRx := fst (computeNetwork sj),
                       NetTx := snd (computeNetwork sj),
                       BlockRead := fst (computeBlockIO mapLower sj),
                       BlockWrite := snd (computeBlockIO mapLower sj),
                       PIDs := (if Current (PidsStats sj) \<noteq> 0
                                then sint (Current (PidsStats sj)) else 0)\<rparr>))"
proof (intro conjI impI allI)
  assume "ContainerList cli includeAll = Inl err"
  then show "CollectSnapshots mapLower cli includeAll evs = Some (Inl err, [])"
    by (simp add: CollectSnapshots_def)
next
  assume l: "ContainerList cli includeAll = Inr cs"
  show "\<exists>evs' snaps fetched.
          CollectSnapshots mapLower cli includeAll evs' = Some (Inr snaps, fetched)"
    using CollectSnapshots_returns [OF l, of mapLower] by blast
next
  fix e fetched
  assume l: "ContainerList cli includeAll = Inr cs"
  show "CollectSnapshots mapLower cli includeAll evs \<noteq> Some (Inl e, fetched)"
    using CollectSnapshots_result(1) [OF _ l, of mapLower evs "Inl e" fetched] by auto
next
  fix snaps fetched i e
  assume l: "ContainerList cli includeAll = Inr cs"
    and h: "CollectSnapshots mapLower cli includeAll evs = Some (Inr snaps, fetched)
              \<and> i < length cs \<and> cState (cs ! i) = ''running''
              \<and> (ContainerStats cli (cID (cs ! i)) = Inl e
                   \<or> ContainerStats cli (cID (cs ! i)) = Inr (Inl e))"
  have s: "snaps = map (finalSlot mapLower cli) cs"
    using CollectSnapshots_result(1) [OF _ l, of mapLower evs "Inr snaps" fetched] h by simp
  have "ID (newSnapshot (cs ! i)) = cID (cs ! i)" by (simp add: newSnapshot_def)
  then have "worker mapLower cli (newSnapshot (cs ! i))
               = (newSnapshot (cs ! i))\<lparr>Status := ''ERROR''\<rparr>"
    using h by (intro worker_failed [of _ _ e]) simp
  then show "snaps ! i =
               zeroSnapshot\<lparr>ID := cID (cs ! i), Name := deriveName (cNames (cs ! i)),
                            Status := ''ERROR''\<rparr>"
    using h s by (simp add: finalSlot_def newSnapshot_def)
next
  fix snaps fetched j sj
  assume l: "ContainerList cli includeAll = Inr cs"
    and h: "CollectSnapshots mapLower cli includeAll evs = Some (Inr snaps, fetched)
              \<and> j < length cs \<and> cState (cs ! j) = ''running''
              \<and> ContainerStats cli (cID (cs ! j)) = Inr (Inr sj)"
  have s: "snaps = map (finalSlot mapLower cli) cs"
    using CollectSnapshots_result(1) [OF _ l, of mapLower evs "Inr snaps" fetched] h by simp
  have "ContainerStats cli (ID (newSnapshot (cs ! j))) = Inr (Inr sj)"
    using h by (simp add: newSnapshot_def)
  from worker_succeeded [OF this, of mapLower]
  show "snaps ! j =
          zeroSnapshot
            \<lparr>ID := cID (cs ! j), Name := deriveName (cNames (cs ! j)),
             Status := deriveStatus (cState (cs ! j)) (cStatus (cs ! j)),
             CPUPercent := computeCPUPercent sj,
             MemUsage := fst (computeMemory sj),
             MemLimit := fst (snd (computeMemory sj)),
             MemPercent := snd (snd (computeMemory sj)),
             NetRx := fst (computeNetwork sj),
             NetTx := snd (computeNetwork sj),
             BlockRead := fst (computeBlockIO mapLower sj),
             BlockWrite := snd (computeBlockIO mapLower sj),
             PIDs := (if Current (PidsStats sj) \<noteq> 0
                      then sint (Current (PidsStats sj)) else 0)\<rparr>"
    using h s by (simp add: finalSlot_def newSnapshot_def)
qed

theorem CollectSnapshots_failures_witness:
  "ContainerList failingClient False = Inl (Error ''daemon unreachable'')
   \<and> CollectSnapshots id failingClient False [] = Some (Inl (Error ''daemon unreachable''), [])
   \<and> ContainerList sampleClient True = Inr sampleContainers
   \<and> CollectSnapshots id sampleClient True sampleSchedule
       = Some (Inr sampleSnapshots, [''ccc'', ''aaa'', ''eee'', ''ddd''])
   \<and> cState (sampleContainers ! 2) = ''running''
   \<and> ContainerStats sampleClient (cID (sampleContainers ! 2))
       = Inl (Error ''context deadline exceeded'')
   \<and> sampleSnapshots ! 2 = zeroSnapshot\<lparr>ID := ''ccc'', Name := ''cache'', Status := ''ERROR''\<rparr>
   \<and> cState (sampleContainers ! 4) = ''running''
   \<and> ContainerStats sampleClient (cID (sampleContainers ! 4))
       = Inr (Inl (Error ''unexpected EOF''))
   \<and> sampleSnapshots ! 4 = zeroSnapshot\<lparr>ID := ''eee'', Name := '''', Status := ''ERROR''\<rparr>
   \<and> cState (sampleContainers ! 0) = ''running''
   \<and> ContainerStats sampleClient (cID (sampleContainers ! 0)) = Inr (Inr fullSample)
   \<and> sampleSnapshots ! 0 =
       zeroSnapshot\<lparr>ID := ''aaa'', Name := ''web'', Status := ''Up 2 minutes'',
                    CPUPercent := 40, MemUsage := 104857600, MemLimit := 2147483648,
                    MemPercent := 4.8828125, NetRx := 13, NetTx := 24, BlockRead := 1024,
                    BlockWrite := 2048, PIDs := 7\<rparr>"
proof -
  have fl: "ContainerList failingClient False = Inl (Error ''daemon unreachable'')"
    by (simp add: failingClient_def)
  from CollectSnapshots_failures
    [of failingClient False "Error ''daemon unreachable''" id "[]" "[]"] fl
  have f: "CollectSnapshots id failingClient False []
             = Some (Inl (Error ''daemon unreachable''), [])"
    by blast
  have st: "cState (sampleContainers ! 2) = ''running''"
    "ContainerStats sampleClient (cID (sampleContainers ! 2))
       = Inl (Error ''context deadline exceeded'')"
    "cState (sampleContainers ! 4) = ''running''"
    "ContainerStats sampleClient (cID (sampleContainers ! 4))
       = Inr (Inl (Error ''unexpected EOF''))"
    "cState (sampleContainers ! 0) = ''running''"
    "ContainerStats sampleClient (cID (sampleContainers ! 0)) = Inr (Inr fullSample)"
    by (simp_all add: sampleContainers_def sampleClient_def)
  have len: "2 < length sampleContainers" "4 < length sampleContainers"
    by (simp_all add: sampleContainers_def)
  note T = CollectSnapshots_failures
    [of sampleClient True "Error ''daemon unreachable''" id sampleSchedule sampleContainers]
  from T sample_list sample_run st(1,2) len(1)
  have s2: "sampleSnapshots ! 2 =
      zeroSnapshot\<lparr>ID := cID (sampleContainers ! 2),
                   Name := deriveName (cNames (sampleContainers ! 2)), Status := ''ERROR''\<rparr>"
    by blast
  from T sample_list sample_run st(3,4) len(2)
  have s4: "sampleSnapshots ! 4 =
      zeroSnapshot\<lparr>ID := cID (sampleContainers ! 4),
                   Name := deriveName (cNames (sampleContainers ! 4)), Status := ''ERROR''\<rparr>"
    by blast
  have s0: "sampleSnapshots ! 0 =
       zeroSnapshot\<lparr>ID := ''aaa'', Name := ''web'', Status := ''Up 2 minutes'',
                    CPUPercent := 40, MemUsage := 104857600, MemLimit := 2147483648,
                    MemPercent := 4.8828125, NetRx := 13, NetTx := 24, BlockRead := 1024,
                    BlockWrite := 2048, PIDs := 7\<rparr>"
    by (simp add: sampleSnapshots_def zeroSnapshot_def)
  have names: "cID (sampleContainers ! 2) = ''ccc''"
    "deriveName (cNames (sampleContainers ! 2)) = ''cache''"
    "cID (sampleContainers ! 4) = ''eee''"
    "deriveName (cNames (sampleContainers ! 4)) = ''''"
    by (simp_all add: sampleContainers_def deriveName_def TrimPrefix_def)
  show ?thesis
    using fl f sample_list sample_run st s2 s4 s0 by (simp only: names)
qed

text \<open>
  C9. For a running container whose fetch succeeded, the status of the snapshot is the
  status string of the listing when that is not empty, else the state of the listing
  when that is not empty, else the empty string.
\<close>

theorem running_fetched_status:
  assumes "ContainerList cli includeAll = Inr cs"
    and "CollectSnapshots mapLower cli includeAll evs = Some (Inr snaps, fetched)"
    and "i < length cs" and "cState (cs ! i) = ''running''"
    and "ContainerStats cli (cID (cs ! i)) = Inr (Inr sj)"
  shows "Status (snaps ! i) =
           (if cStatus (cs ! i) \<noteq> '''' then cStatus (cs ! i)
            else if cState (cs ! i) \<noteq> '''' then cState (cs ! i) else '''')"
proof -
  have s: "snaps = map (finalSlot mapLower cli) cs"
    using CollectSnapshots_result(1) [OF assms(2) assms(1)] by simp
  have "ContainerStats cli (ID (newSnapshot (cs ! i))) = Inr (Inr sj)"
    using assms(5) by (simp add: newSnapshot_def)
  from worker_succeeded [OF this, of mapLower]
  have "Status (worker mapLower cli (newSnapshot (cs ! i))) = Status (newSnapshot (cs ! i))"
    by simp
  then show ?thesis
    using s assms(3,4) by (simp add: finalSlot_def newSnapshot_def deriveStatus_def)
qed

theorem running_fetched_status_witness:
  "ContainerList sampleClient True = Inr sampleContainers
   \<and> CollectSnapshots id sampleClient True sampleSchedule
       = Some (Inr sampleSnapshots, [''ccc'', ''aaa'', ''eee'', ''ddd''])
   \<and> cState (sampleContainers ! 0) = ''running''
   \<and> ContainerStats sampleClient (cID (sampleContainers ! 0)) = Inr (Inr fullSample)
   \<and> cStatus (sampleContainers ! 0) = ''Up 2 minutes''
   \<and> Status (sampleSnapshots ! 0) = ''Up 2 minutes''
   \<and> cState (sampleContainers ! 3) = ''running''
   \<and> ContainerStats sampleClient (cID (sampleContainers ! 3)) = Inr (Inr emptyStats)
   \<and> cStatus (sampleContainers ! 3) = ''''
   \<and> Status (sampleSnapshots ! 3) = ''running''"
proof -
  have st: "cState (sampleContainers ! 0) = ''running''"
    "ContainerStats sampleClient (cID (sampleContainers ! 0)) = Inr (Inr fullSample)"
    "cState (sampleContainers ! 3) = ''running''"
    "ContainerStats sampleClient (cID (sampleContainers ! 3)) = Inr (Inr emptyStats)"
    "cStatus (sampleContainers ! 0) = ''Up 2 minutes''"
    "cStatus (sampleContainers ! 3) = ''''"
    by (simp_all add: sampleContainers_def sampleClient_def)
  have len: "0 < length sampleContainers" "3 < length sampleContainers"
    by (simp_all add: sampleContainers_def)
  have "Status (sampleSnapshots ! 0) = ''Up 2 minutes''"
    using running_fetched_status [OF sample_list sample_run len(1) st(1) st(2)]
    by (simp add: st)
  moreover have "Status (sampleSnapshots ! 3) = ''running''"
    using running_fetched_status [OF sample_list sample_run len(2) st(3) st(4)]
    by (simp add: st)
  ultimately show ?thesis
    using sample_list sample_run st by simp
qed

subsection \<open>The concurrency ceiling\<close>

text \<open>
  C7. With N running containers, in every state of every execution of the goroutines
  the calls of \<^verbatim>\<open>populateStats\<close> in flight are at most min(16, N), and so are the
  tokens in \<^verbatim>\<open>sem\<close>. The witness has 17 running containers: after 16 submissions 16
  fetches are in flight and the loop cannot submit the 17th.
\<close>

theorem fetches_in_flight_bounded:
  assumes "runPool mapLower cli (concurrency (pending (startPool cs))) (startPool cs) evs
             = Some p"
  shows "length (fetching p) \<le> min 16 (length (filter (\<lambda>c. cState c = ''running'') cs))
         \<and> sem p \<le> min 16 (length (filter (\<lambda>c. cState c = ''running'') cs))"
proof -
  have "gateInv (concurrency (pending (startPool cs))) p"
    using runPool_gateInv [OF assms gateInv_startPool] .
  then show ?thesis
    by (simp add: gateInv_def concurrency_min length_pending_startPool)
qed

lemma many_running: "length (filter (\<lambda>c. cState c = ''running'') manyContainers) = 17"
  by code_simp

lemma many_concurrency: "concurrency (pending (startPool manyContainers)) = 16"
  by (simp add: concurrency_def length_pending_startPool many_running)

lemma many_run:
  "map_option (\<lambda>p. (pending p, spawned p, fetching p, returned p, sem p))
     (runPool id busyClient 16 (startPool manyContainers)
        (replicate 16 Submit @ map Begin [0..<16]))
   = Some ([16], [], [0..<16], [], 16)"
  by code_simp

theorem fetches_in_flight_bounded_witness:
  "\<exists>p. runPool id busyClient (concurrency (pending (startPool manyContainers)))
          (startPool manyContainers) (replicate 16 Submit @ map Begin [0..<16]) = Some p
       \<and> length (filter (\<lambda>c. cState c = ''running'') manyContainers) = 17
       \<and> length (fetching p) = 16
       \<and> length (fetching p) \<le> min 16 (length (filter (\<lambda>c. cState c = ''running'') manyContainers))
       \<and> pending p = [16]
       \<and> poolStep id busyClient 16 p Submit = None"
proof -
  from many_run obtain p
    where run: "runPool id busyClient 16 (startPool manyContainers)
                  (replicate 16 Submit @ map Begin [0..<16]) = Some p"
      and p: "pending p = [16]" "fetching p = [0..<16]" "sem p = 16"
    by auto
  have run': "runPool id busyClient (concurrency (pending (startPool manyContainers)))
                (startPool manyContainers) (replicate 16 Submit @ map Begin [0..<16]) = Some p"
    using run by (simp only: many_concurrency)
  from fetches_in_flight_bounded [OF run']
  have "length (fetching p)
          \<le> min 16 (length (filter (\<lambda>c. cState c = ''running'') manyContainers))"
    by simp
  moreover have "poolStep id busyClient 16 p Submit = None"
    using p by simp
  ultimately show ?thesis
    using run' p many_running by (intro exI [of _ p]) simp
qed

section \<open>Properties of the watch loop\<close>

lemma watchRun_append:
  "watchRun s (xs @ ys) = (case watchRun s xs of None \<Rightarrow> None | Some t \<Rightarrow> watchRun t ys)"
  by (induction xs arbitrary: s) (auto split: option.splits)

lemma watchStep_no_tick:
  assumes "watchStep s e = Some t" and "e \<noteq> Tick" and "\<not> tickReady s"
  shows "cycles t = cycles s \<and> \<not> tickReady t"
  using assms by (cases e) (auto split: if_splits sum.splits)

lemma watchRun_no_tick:
  "watchRun s evs = Some t \<Longrightarrow> Tick \<notin> set evs \<Longrightarrow> \<not> tickReady s
     \<Longrightarrow> cycles t = cycles s \<and> \<not> tickReady t"
proof (induction evs arbitrary: s)
  case Nil
  then show ?case by simp
next
  case (Cons e evs)
  then obtain u where u: "watchStep s e = Some u" "watchRun u evs = Some t"
    by (auto split: option.splits)
  have "cycles u = cycles s \<and> \<not> tickReady u"
    using watchStep_no_tick [OF u(1)] Cons.prems by auto
  then show ?case
    using Cons.IH [OF u(2)] Cons.prems by auto
qed

lemma watchStep_Returned:
  assumes "watchStep s e = Some t" and "phase s = Returned r"
  shows "phase t = Returned r \<and> cycles t = cycles s"
  using assms by (cases e) (auto split: if_splits sum.splits)

lemma watchRun_Returned:
  "watchRun s evs = Some t \<Longrightarrow> phase s = Returned r
     \<Longrightarrow> phase t = Returned r \<and> cycles t = cycles s"
proof (induction evs arbitrary: s)
  case Nil
  then show ?case by simp
next
  case (Cons e evs)
  then obtain u where u: "watchStep s e = Some u" "watchRun u evs = Some t"
    by (auto split: option.splits)
  have "phase u = Returned r \<and> cycles u = cycles s"
    using watchStep_Returned [OF u(1) Cons.prems(2)] .
  then show ?case
    using Cons.IH [OF u(2)] by auto
qed

text \<open>
  C8, as stated: if the cancellation is raised before any tick, the cycle in flight is
  the last one. It fails when the tick fires while that cycle is still in flight: the
  ticker buffers the tick, the \<^verbatim>\<open>select\<close> then finds both channels ready and may take
  the tick, and the loop starts a second cycle after the cancellation.
\<close>

theorem watch_cancel_then_tick:
  "cancelBeforeTick [Cancel, Tick, Collected (Inr []), SelectTick]
   \<and> watchContainers [Cancel, Tick, Collected (Inr []), SelectTick]
       = Some \<lparr>phase = Collecting, tickReady = False, cancelled = True, cycles = 2\<rparr>"
  by (simp add: watchContainers_def watchStart_def)

text \<open>
  C8, amended. As long as no tick has fired the loop starts no cycle after the first;
  when the loop reaches its \<^verbatim>\<open>select\<close> with the cancellation raised and no tick
  buffered, the \<^verbatim>\<open>select\<close> cannot continue the loop and the function returns \<^verbatim>\<open>nil\<close>.
  Whenever a cycle fails, the function returns the error of that cycle, and once it has
  returned it starts no further cycle.
\<close>

theorem watch_cancellation:
  "(watchContainers evs = Some s \<and> Tick \<notin> set evs \<longrightarrow> cycles s = 1 \<and> \<not> tickReady s)
   \<and> (watchContainers evs = Some s \<and> phase s = Waiting \<and> cancelled s \<and> \<not> tickReady s
        \<longrightarrow> watchStep s SelectTick = None
            \<and> watchStep s SelectDone = Some (s\<lparr>phase := Returned None\<rparr>))
   \<and> (watchContainers (evs @ [Collected (Inl err)]) = Some s
        \<longrightarrow> phase s = Returned (Some err))
   \<and> (phase s = Returned r \<and> watchRun s evs' = Some s'
        \<longrightarrow> phase s' = Returned r \<and> cycles s' = cycles s)"
proof (intro conjI impI)
  assume "watchContainers evs = Some s \<and> Tick \<notin> set evs"
  then have "cycles s = cycles watchStart \<and> \<not> tickReady s"
    by (intro watchRun_no_tick [of _ evs]) (simp_all add: watchContainers_def watchStart_def)
  then show "cycles s = 1" "\<not> tickReady s" by (simp_all add: watchStart_def)
next
  assume h: "watchContainers evs = Some s \<and> phase s = Waiting \<and> cancelled s
               \<and> \<not> tickReady s"
  then show "watchStep s SelectTick = None" by simp
  from h show "watchStep s SelectDone = Some (s\<lparr>phase := Returned None\<rparr>)" by simp
next
  assume "watchContainers (evs @ [Collected (Inl err)]) = Some s"
  then show "phase s = Returned (Some err)"
    by (auto simp: watchContainers_def watchRun_append split: option.splits if_splits)
next
  assume "phase s = Returned r \<and> watchRun s evs' = Some s'"
  then show "phase s' = Returned r" "cycles s' = cycles s"
    using watchRun_Returned [of s evs' s' r] by auto
qed

theorem watch_cancellation_witness:
  "watchContainers [Cancel, Collected (Inr [])]
     = Some \<lparr>phase = Waiting, tickReady = False, cancelled = True, cycles = 1\<rparr>
   \<and> Tick \<notin> set [Cancel, Collected (Inr [])]
   \<and> watchStep \<lparr>phase = Waiting, tickReady = False, cancelled = True, cycles = 1\<rparr> SelectTick
       = None
   \<and> watchStep \<lparr>phase = Waiting, tickReady = False, cancelled = True, cycles = 1\<rparr> SelectDone
       = Some \<lparr>phase = Returned None, tickReady = False, cancelled = True, cycles = 1\<rparr>
   \<and> watchContainers
       ([Tick, Collected (Inr []), SelectTick] @ [Collected (Inl (Error ''daemon unreachable''))])
       = Some \<lparr>phase = Returned (Some (Error ''daemon unreachable'')), tickReady = False,
               cancelled = False, cycles = 2\<rparr>
   \<and> watchRun \<lparr>phase = Returned (Some (Error ''daemon unreachable'')), tickReady = False,
               cancelled = False, cycles = 2\<rparr> [Tick, Cancel]
       = Some \<lparr>phase = Returned (Some (Error ''daemon unreachable'')), tickReady = True,
               cancelled = True, cycles = 2\<rparr>"
  using
    watch_cancellation [of "[Cancel, Collected (Inr [])]"
      "\<lparr>phase = Waiting, tickReady = False, cancelled = True, cycles = 1\<rparr>"
      "Error ''daemon unreachable''" None "[]"
      "\<lparr>phase = Waiting, tickReady = False, cancelled = True, cycles = 1\<rparr>"]
    watch_cancellation [of "[Tick, Collected (Inr []), SelectTick]"
      "\<lparr>phase = Returned (Some (Error ''daemon unreachable'')), tickReady = False,
        cancelled = False, cycles = 2\<rparr>"
      "Error ''daemon unreachable''" "Some (Error ''daemon unreachable'')" "[Tick, Cancel]"
      "\<lparr>phase = Returned (Some (Error ''daemon unreachable'')), tickReady = True,
        cancelled = True, cycles = 2\<rparr>"]
  by (simp add: watchContainers_def watchStart_def)

end
